theory Spec2Isabelle
  imports Main "HOL-Library.Sublist" "HOL-Library.Log_Nat"
begin

section \<open>JavaScript numbers\<close>

text \<open>
  \<^verbatim>\<open>processOrderFulfillment\<close> compares the paid amount with the order's amount in
  JavaScript numbers, that is in IEEE 754 binary64 with round-to-nearest, ties-to-even.
  A number is a finite rational (the exact value of the double), an infinity or NaN.
  The two signed zeros are one value here: no operation below tells them apart.
\<close>

datatype jsnum = Fin rat | PInf | NInf | NaN

definition pow2 :: "int \<Rightarrow> rat" where
  "pow2 k = (if 0 \<le> k then 2 ^ nat k else 1 / 2 ^ nat (- k))"

text \<open>The integer nearest to a non-negative rational, a tie going to the even neighbour.\<close>

definition round_half_even :: "rat \<Rightarrow> int" where
  "round_half_even r =
     (let f = \<lfloor>r\<rfloor>; d = r - of_int f
      in if d < 1 / 2 then f
         else if 1 / 2 < d then f + 1
         else if even f then f else f + 1)"

text \<open>
  \<open>floor_log2 a\<close> is the exponent \<open>e\<close> with \<open>2^e \<le> a < 2^(e+1)\<close>, for \<open>a > 0\<close>:
  one less than the bit length of \<open>\<lfloor>a\<rfloor>\<close> from \<open>1\<close> on, and below \<open>1\<close> the negated
  bit length of \<open>\<lceil>1/a\<rceil> - 1\<close>.
\<close>

definition floor_log2 :: "rat \<Rightarrow> int" where
  "floor_log2 a =
     (if 1 \<le> a then bitlen \<lfloor>a\<rfloor> - 1 else - bitlen (\<lceil>1 / a\<rceil> - 1))"

text \<open>
  Rounding a rational to binary64: 53 significant bits, the least exponent of a unit in
  the last place is \<open>-1074\<close> (subnormal numbers), and a result of \<open>2^1024\<close> or more
  is an infinity.
\<close>

definition round_double :: "rat \<Rightarrow> jsnum" where
  "round_double q =
     (if q = 0 then Fin 0
      else
        let a = \<bar>q\<bar>;
            ex = max (floor_log2 a - 52) (- 1074);
            m = round_half_even (a / pow2 ex);
            r = of_int m * pow2 ex
        in if pow2 1024 \<le> r then (if 0 < q then PInf else NInf)
           else Fin (if 0 < q then r else - r))"

fun js_sub :: "jsnum \<Rightarrow> jsnum \<Rightarrow> jsnum" where
  "js_sub NaN y = NaN"
| "js_sub x NaN = NaN"
| "js_sub (Fin a) (Fin b) = round_double (a - b)"
| "js_sub (Fin a) PInf = NInf"
| "js_sub (Fin a) NInf = PInf"
| "js_sub PInf PInf = NaN"
| "js_sub PInf y = PInf"
| "js_sub NInf NInf = NaN"
| "js_sub NInf y = NInf"

fun js_abs :: "jsnum \<Rightarrow> jsnum" where
  "js_abs (Fin a) = Fin \<bar>a\<bar>"
| "js_abs PInf = PInf"
| "js_abs NInf = PInf"
| "js_abs NaN = NaN"

text \<open>The comparison \<^verbatim>\<open>x > y\<close>: false as soon as one side is NaN.\<close>

fun js_gt :: "jsnum \<Rightarrow> jsnum \<Rightarrow> bool" where
  "js_gt NaN y = False"
| "js_gt x NaN = False"
| "js_gt (Fin a) (Fin b) = (b < a)"
| "js_gt PInf PInf = False"
| "js_gt PInf y = True"
| "js_gt x PInf = False"
| "js_gt NInf y = False"
| "js_gt (Fin a) NInf = True"


text \<open>
  \<^verbatim>\<open>parseFloat(order.amount)\<close>: the column is a decimal, which the driver hands over as
  its decimal text; the order record below keeps the decimal's exact value, and parsing
  it gives the nearest double.
\<close>

definition parseFloat :: "rat \<Rightarrow> jsnum" where
  "parseFloat d = round_double d"

text \<open>The test of line 18, \<^verbatim>\<open>Math.abs(paidAmount - orderMoney) > 0.01\<close>.\<close>

definition amountMismatch :: "jsnum \<Rightarrow> rat \<Rightarrow> bool" where
  "amountMismatch paidAmount amount =
     (let orderMoney = parseFloat amount
      in js_gt (js_abs (js_sub paidAmount orderMoney)) (round_double (1 / 100)))"

section \<open>Strings\<close>

text \<open>
  A nullable string is a \<open>string option\<close>. JavaScript's conditions \<^verbatim>\<open>if (x)\<close> and
  \<^verbatim>\<open>!x\<close> on such a value take \<^verbatim>\<open>null\<close>, \<^verbatim>\<open>undefined\<close> and the empty string for false.
\<close>

definition truthy :: "string option \<Rightarrow> bool" where
  "truthy x = (case x of None \<Rightarrow> False | Some v \<Rightarrow> v \<noteq> [])"

text \<open>\<^verbatim>\<open>s.includes(t)\<close>: \<open>t\<close> occurs in \<open>s\<close> as a contiguous block.\<close>

fun js_includes :: "string \<Rightarrow> string \<Rightarrow> bool" where
  "js_includes [] t = (t = [])"
| "js_includes (c # cs) t = (prefix t (c # cs) \<or> js_includes cs t)"

text \<open>\<^verbatim>\<open>s.split(',')\<close>: the empty string gives one empty piece.\<close>

fun split_comma :: "string \<Rightarrow> string list" where
  "split_comma [] = [[]]"
| "split_comma (c # cs) =
     (if c = CHR '','' then [] # split_comma cs
      else (case split_comma cs of [] \<Rightarrow> [[c]] | x # xs \<Rightarrow> (c # x) # xs))"

section \<open>The store\<close>

text \<open>
  Orders are keyed by \<^verbatim>\<open>orderId\<close> and users by \<^verbatim>\<open>userId\<close>, so each table is a map from
  the key to the rest of the row. Cards are a list in the table's row order: the claim
  statements take the first row that qualifies (\<^verbatim>\<open>LIMIT 1\<close>, \<^verbatim>\<open>rows[0]\<close>). The card's
  fields carry the column names of the SQL text; the column \<^verbatim>\<open>id\<close> is \<open>card_id\<close>.
  Timestamps are milliseconds as integers.
\<close>

datatype order_status = Pending | Paid | Delivered | Cancelled | Refunded

record order =
  productId :: string
  amount :: rat
  status :: order_status
  tradeNo :: "string option"
  cardKey :: "string option"
  userId :: "string option"
  pointsUsed :: int
  paidAt :: "int option"
  deliveredAt :: "int option"

record card =
  card_id :: int
  product_id :: string
  card_key :: string
  is_used :: "bool option"
  used_at :: "int option"
  reserved_order_id :: "string option"
  reserved_at :: "int option"

record refund_request =
  req_orderId :: string
  req_status :: string
  processedAt :: "int option"
  updatedAt :: "int option"

record store =
  orders :: "string \<rightharpoonup> order"
  cards :: "card list"
  loginUsers :: "string \<rightharpoonup> int"
  refundRequests :: "refund_request list"

text \<open>
  What a failed statement throws: its \<^verbatim>\<open>message\<close>, when it has one, and the text that
  \<^verbatim>\<open>JSON.stringify\<close> makes of it.
\<close>

record db_error =
  message :: "string option"
  json :: string

datatype error = OrderNotFound | AmountMismatch | Unauthorized | DbError db_error

datatype fulfil_status = Processed | Already_processed

section \<open>processOrderFulfillment\<close>

text \<open>
  The surroundings of one call: the database clock (\<^verbatim>\<open>NOW()\<close>, the same in both
  statements of one transaction), the server clock as the two \<^verbatim>\<open>new Date()\<close> of the
  order's update read it, first for \<open>paidAt\<close> and then for \<open>deliveredAt\<close>, and the error
  that the first statement of the transaction throws, if it throws. On a schema without the
  reservation columns that error is the undefined-column error 42703.
  A statement that throws changes no row. The database is Postgres (the error code
  42703 and \<^verbatim>\<open>FOR UPDATE SKIP LOCKED\<close> are its own): a statement that fails inside a
  transaction aborts the transaction, every later statement of that transaction fails
  with error 25P02 whether or not the first error was caught, and nothing that the
  transaction wrote is kept. Failures of the other statements are not part of the model.
\<close>

record fulfil_env =
  dbNow :: int
  jsNow :: int
  jsNow2 :: int
  reservedStmtError :: "db_error option"

text \<open>\<^verbatim>\<open>COALESCE(is_used, false) = false\<close>\<close>

definition unused :: "card \<Rightarrow> bool" where
  "unused c = (case is_used c of None \<Rightarrow> True | Some b \<Rightarrow> \<not> b)"

text \<open>The condition of the catch block, lines 43 to 47.\<close>

definition isUndefinedColumn :: "db_error \<Rightarrow> bool" where
  "isUndefinedColumn e =
     ((case message e of None \<Rightarrow> False | Some m \<Rightarrow> js_includes m ''reserved_order_id'')
      \<or> (case message e of None \<Rightarrow> False | Some m \<Rightarrow> js_includes m ''reserved_at'')
      \<or> js_includes (json e) ''42703'')"

text \<open>The two \<^verbatim>\<open>SET\<close> clauses: with the reservation columns, and the legacy one.\<close>

definition markUsed :: "int \<Rightarrow> card \<Rightarrow> card" where
  "markUsed now c =
     c\<lparr>is_used := Some True, used_at := Some now, reserved_order_id := None, reserved_at := None\<rparr>"

definition markUsedLegacy :: "int \<Rightarrow> card \<Rightarrow> card" where
  "markUsedLegacy now c = c\<lparr>is_used := Some True, used_at := Some now\<rparr>"

text \<open>
  An \<^verbatim>\<open>UPDATE cards SET ... WHERE ... RETURNING card_key\<close>: every row that satisfies
  the condition is rewritten, and the keys of those rows come back in row order.
\<close>

definition updateReturning :: "(card \<Rightarrow> bool) \<Rightarrow> (card \<Rightarrow> card) \<Rightarrow> card list \<Rightarrow> card list \<times> string list" where
  "updateReturning P f cs = (map (\<lambda>c. if P c then f c else c) cs, map card_key (filter P cs))"

text \<open>\<^verbatim>\<open>rows[0]?.card_key\<close>\<close>

definition firstKey :: "string list \<Rightarrow> string option" where
  "firstKey rows = (case rows of [] \<Rightarrow> None | k # _ \<Rightarrow> Some k)"

text \<open>The first statement, lines 30 to 38.\<close>

definition reservedFor :: "string \<Rightarrow> card \<Rightarrow> bool" where
  "reservedFor orderId c = (reserved_order_id c = Some orderId \<and> unused c)"

definition claimReserved :: "int \<Rightarrow> string \<Rightarrow> card list \<Rightarrow> card list \<times> string list" where
  "claimReserved now orderId cs = updateReturning (reservedFor orderId) (markUsed now) cs"

text \<open>
  The inner \<^verbatim>\<open>SELECT id ... LIMIT 1 FOR UPDATE SKIP LOCKED\<close>: the id of the first row
  that qualifies, if there is one. With one transaction at a time no row is locked.
\<close>

definition selectFirstId :: "(card \<Rightarrow> bool) \<Rightarrow> card list \<Rightarrow> int option" where
  "selectFirstId P cs = (case filter P cs of [] \<Rightarrow> None | c # _ \<Rightarrow> Some (card_id c))"

text \<open>\<^verbatim>\<open>WHERE id = (SELECT ...)\<close>: no row when the inner query has none.\<close>

definition hasId :: "int option \<Rightarrow> card \<Rightarrow> bool" where
  "hasId sel c = (case sel of None \<Rightarrow> False | Some i \<Rightarrow> card_id c = i)"

text \<open>The condition of lines 67 to 69, one minute being 60000 milliseconds.\<close>

definition eligible :: "int \<Rightarrow> string \<Rightarrow> card \<Rightarrow> bool" where
  "eligible now pid c =
     (product_id c = pid \<and> unused c \<and>
      (case reserved_at c of None \<Rightarrow> True | Some t \<Rightarrow> t < now - 60000))"

definition claimAvailable :: "int \<Rightarrow> string \<Rightarrow> card list \<Rightarrow> card list \<times> string list" where
  "claimAvailable now pid cs =
     updateReturning (hasId (selectFirstId (eligible now pid) cs)) (markUsed now) cs"

text \<open>The condition of line 85.\<close>

definition eligibleLegacy :: "string \<Rightarrow> card \<Rightarrow> bool" where
  "eligibleLegacy pid c = (product_id c = pid \<and> unused c)"

definition claimLegacy :: "int \<Rightarrow> string \<Rightarrow> card list \<Rightarrow> card list \<times> string list" where
  "claimLegacy now pid cs =
     updateReturning (hasId (selectFirstId (eligibleLegacy pid) cs)) (markUsedLegacy now) cs"

text \<open>
  What a statement gets in a transaction that an earlier failure has aborted: the
  error 25P02 in place of its rows. The text of the error is abridged.
\<close>

definition inFailedTransaction :: db_error where
  "inFailedTransaction =
     \<lparr>message = Some ''current transaction is aborted, commands ignored until end of transaction block'',
      json = ''{code:25P02}''\<rparr>"

definition execute ::
  "bool \<Rightarrow> (card list \<Rightarrow> card list \<times> string list) \<Rightarrow> card list \<Rightarrow> db_error + (card list \<times> string list)" where
  "execute aborted stmt cs = (if aborted then Inl inFailedTransaction else Inr (stmt cs))"

text \<open>
  Lines 25 to 94: the card key that the transaction claims for the order, with the
  cards as the statements leave them, or the error that leaves the transaction: the one
  that the catch block throws again, or the one of the second statement. The \<^verbatim>\<open>try\<close>
  block gives the key, \<^verbatim>\<open>supportsReservation\<close>, and whether the transaction is aborted by
  then: it is when the first statement failed and the catch block kept the error. So the
  legacy statement of lines 79 to 90, which runs only after such a failure, never gets
  to a row.
\<close>

definition claimCard :: "fulfil_env \<Rightarrow> string \<Rightarrow> order \<Rightarrow> card list \<Rightarrow> db_error + (string option \<times> card list)" where
  "claimCard env orderId ord cs =
     (case (case reservedStmtError env of
              None \<Rightarrow> (let (cs1, rows) = claimReserved (dbNow env) orderId cs
                        in Inr (firstKey rows, True, False, cs1))
            | Some e \<Rightarrow> (if isUndefinedColumn e then Inr (None, False, True, cs) else Inl e))
      of Inl e \<Rightarrow> Inl e
       | Inr (cardKey', supportsReservation, aborted, cs1) \<Rightarrow>
           (if \<not> truthy cardKey' then
              (case execute aborted
                      (if supportsReservation then claimAvailable (dbNow env) (productId ord)
                       else claimLegacy (dbNow env) (productId ord)) cs1
               of Inl e \<Rightarrow> Inl e
                | Inr (cs2, rows) \<Rightarrow> Inr (firstKey rows, cs2))
            else Inr (cardKey', cs1)))"

text \<open>
  The whole function. An error leaves the store as it was: the two checks come before
  any write, and an error inside the transaction rolls it back.
\<close>

definition processOrderFulfillment ::
  "fulfil_env \<Rightarrow> store \<Rightarrow> string \<Rightarrow> jsnum \<Rightarrow> string \<Rightarrow> (error + fulfil_status) \<times> store" where
  "processOrderFulfillment env s orderId paidAmount tradeNo' =
     (case orders s orderId of
        None \<Rightarrow> (Inl OrderNotFound, s)
      | Some ord \<Rightarrow>
          if amountMismatch paidAmount (amount ord) then (Inl AmountMismatch, s)
          else if status ord = Pending \<or> status ord = Cancelled then
            (case claimCard env orderId ord (cards s) of
               Inl e \<Rightarrow> (Inl (DbError e), s)
             | Inr (cardKey', cs) \<Rightarrow>
                 if truthy cardKey' then
                   (Inr Processed,
                    s\<lparr>cards := cs,
                      orders := (orders s)(orderId \<mapsto>
                        ord\<lparr>status := Delivered, paidAt := Some (jsNow env),
                            deliveredAt := Some (jsNow2 env), tradeNo := Some tradeNo',
                            cardKey := cardKey'\<rparr>)\<rparr>)
                 else
                   (Inr Processed,
                    s\<lparr>cards := cs,
                      orders := (orders s)(orderId \<mapsto>
                        ord\<lparr>status := Paid, paidAt := Some (jsNow env),
                            tradeNo := Some tradeNo'\<rparr>)\<rparr>))
          else (Inr Already_processed, s))"

section \<open>markOrderRefunded\<close>

text \<open>
  The surroundings of one call: the user name of the session (none when there is no
  session, no user or no name), the variable \<^verbatim>\<open>ADMIN_USERS\<close>, the \<^verbatim>\<open>toLowerCase\<close> of the
  JavaScript runtime, the server clock as the two \<^verbatim>\<open>new Date()\<close> of the refund request's
  update read it, and whether each of the two statements inside a \<^verbatim>\<open>try\<close> fails in the
  database (the card statement, and the refund request statement, which fails when its
  table does not exist). \<^verbatim>\<open>toLowerCase\<close> is a built-in that maps Unicode text; the theory
  takes it as it comes and nothing below depends on what it does. The revalidation of
  cached pages after the transaction is outside the store and left out.
\<close>

record refund_env =
  username :: "string option"
  ADMIN_USERS :: "string option"
  toLowerCase :: "string \<Rightarrow> string"
  refundNow :: int
  refundNow2 :: int
  cardReturnFails :: bool
  refundRequestFails :: bool

text \<open>Lines 38 to 44.\<close>

definition adminUsers :: "refund_env \<Rightarrow> string list" where
  "adminUsers env =
     (case ADMIN_USERS env of None \<Rightarrow> [] | Some v \<Rightarrow> split_comma (toLowerCase env v))"

definition authorized :: "refund_env \<Rightarrow> bool" where
  "authorized env =
     (case username env of
        None \<Rightarrow> False
      | Some n \<Rightarrow> n \<noteq> [] \<and> toLowerCase env n \<in> set (adminUsers env))"

text \<open>Lines 51 to 55: \<^verbatim>\<open>points = points + pointsUsed\<close> on the user's row, if there is one.\<close>

definition creditPoints :: "string \<Rightarrow> int \<Rightarrow> (string \<rightharpoonup> int) \<Rightarrow> (string \<rightharpoonup> int)" where
  "creditPoints uid p users =
     (case users uid of None \<Rightarrow> users | Some b \<Rightarrow> users(uid \<mapsto> b + p))"

definition refundPoints :: "order \<Rightarrow> (string \<rightharpoonup> int) \<Rightarrow> (string \<rightharpoonup> int)" where
  "refundPoints ord users =
     (case userId ord of
        None \<Rightarrow> users
      | Some uid \<Rightarrow> if uid \<noteq> [] \<and> pointsUsed ord \<noteq> 0 \<and> 0 < pointsUsed ord
                    then creditPoints uid (pointsUsed ord) users else users)"

text \<open>The statement of lines 63 and 64, on the rows of the product that carry the key.\<close>

definition returnCard :: "string \<Rightarrow> string \<Rightarrow> card \<Rightarrow> card" where
  "returnCard pid key c =
     (if product_id c = pid \<and> card_key c = key then c\<lparr>is_used := Some False, used_at := None\<rparr>
      else c)"

definition reclaimCards :: "string \<Rightarrow> string \<Rightarrow> card list \<Rightarrow> card list" where
  "reclaimCards pid key cs = map (returnCard pid key) cs"

text \<open>The statement of lines 72 and 73.\<close>

definition markProcessed :: "refund_env \<Rightarrow> string \<Rightarrow> refund_request list \<Rightarrow> refund_request list" where
  "markProcessed env orderId rs =
     map (\<lambda>r. if req_orderId r = orderId
              then r\<lparr>req_status := ''processed'', processedAt := Some (refundNow env),
                    updatedAt := Some (refundNow2 env)\<rparr>
              else r) rs"

text \<open>
  A transaction in progress: whether a failed statement has aborted it, and the store
  as its statements have left it. A statement inside \<^verbatim>\<open>try { ... } catch { }\<close> that fails, of
  itself or because the transaction is aborted already, writes nothing and leaves the
  transaction aborted; the catch block hides the error from the caller. At the end of
  the callback the transaction commits: an aborted one is rolled back without an error,
  and the store is the one from before the transaction.
\<close>

type_synonym txn = "bool \<times> store"

definition tryStatement :: "bool \<Rightarrow> (store \<Rightarrow> store) \<Rightarrow> txn \<Rightarrow> txn" where
  "tryStatement fails stmt t =
     (case t of (aborted, s) \<Rightarrow> if aborted \<or> fails then (True, s) else (False, stmt s))"

definition commit :: "store \<Rightarrow> txn \<Rightarrow> store" where
  "commit before t = (case t of (aborted, s) \<Rightarrow> if aborted then before else s)"

text \<open>
  The whole function, lines 36 to 84. The two updates of lines 51 to 58 come first, then
  the card statement when the order holds a key that JavaScript takes for true, then
  the refund request statement.
\<close>

definition markOrderRefunded :: "refund_env \<Rightarrow> store \<Rightarrow> string \<Rightarrow> (error + unit) \<times> store" where
  "markOrderRefunded env s orderId =
     (if \<not> authorized env then (Inl Unauthorized, s)
      else
        (case orders s orderId of
           None \<Rightarrow> (Inl OrderNotFound, s)
         | Some ord \<Rightarrow>
             (let t0 = (False,
                        s\<lparr>loginUsers := refundPoints ord (loginUsers s),
                          orders := (orders s)(orderId \<mapsto> ord\<lparr>status := Refunded\<rparr>)\<rparr>);
                  t1 = (case cardKey ord of
                          None \<Rightarrow> t0
                        | Some key \<Rightarrow>
                            if key \<noteq> []
                            then tryStatement (cardReturnFails env)
                                   (\<lambda>s1. s1\<lparr>cards := reclaimCards (productId ord) key (cards s1)\<rparr>) t0
                            else t0);
                  t2 = tryStatement (refundRequestFails env)
                         (\<lambda>s2. s2\<lparr>refundRequests := markProcessed env orderId (refundRequests s2)\<rparr>) t1
              in (Inr (), commit s t2))))"

section \<open>Vocabulary of the properties\<close>

text \<open>
  The least difference that the test of line 18 refuses: the double nearest to 0.01 is
  \<open>5764607523034235 / 2^59\<close>, its mantissa is odd, and a difference rounds to a double
  above it from the midpoint to the next double on, which is \<open>11529215046068471 / 2^60\<close>,
  about \<open>0.0100000000000000011\<close>.
\<close>

definition mismatchThreshold :: rat where
  "mismatchThreshold = 11529215046068471 / 1152921504606846976"

text \<open>
  The cards within reach of one call for an order: an unused card reserved for the
  order, or an unused card of the order's product whose reservation time is absent or
  more than a minute old.
\<close>

definition claimable :: "fulfil_env \<Rightarrow> string \<Rightarrow> order \<Rightarrow> card \<Rightarrow> bool" where
  "claimable env orderId ord c =
     (reservedFor orderId c \<or> eligible (dbNow env) (productId ord) c)"

text \<open>
  A refund in which a statement inside a \<^verbatim>\<open>try\<close> fails: the card statement, which runs
  when the order holds a key, or the refund request statement. And the card table as
  the card statement leaves it when it runs.
\<close>

definition refundFails :: "refund_env \<Rightarrow> order \<Rightarrow> bool" where
  "refundFails env ord = (truthy (cardKey ord) \<and> cardReturnFails env \<or> refundRequestFails env)"

definition returned :: "order \<Rightarrow> card list \<Rightarrow> card list" where
  "returned ord cs =
     (case cardKey ord of
        None \<Rightarrow> cs
      | Some key \<Rightarrow> if key \<noteq> [] then reclaimCards (productId ord) key cs else cs)"

text \<open>
  The data model's invariant: a card key is held by the delivered orders, and by them
  only; and the half of it that says a delivered order holds a card key.
\<close>

definition order_inv :: "order \<Rightarrow> bool" where
  "order_inv ord = ((cardKey ord \<noteq> None) = (status ord = Delivered))"

definition store_inv :: "store \<Rightarrow> bool" where
  "store_inv s = (\<forall>oid ord. orders s oid = Some ord \<longrightarrow> order_inv ord)"

definition delivered_has_key :: "order \<Rightarrow> bool" where
  "delivered_has_key ord = (status ord = Delivered \<longrightarrow> cardKey ord \<noteq> None)"

text \<open>
  The operations of the service on the store, and a run of them, each on the store that
  the one before it left; the orders that the refunds of a run name.
\<close>

datatype operation =
    Fulfil fulfil_env string jsnum string
  | Compensate refund_env string

fun apply_operation :: "operation \<Rightarrow> store \<Rightarrow> store" where
  "apply_operation (Fulfil env orderId paidAmount tn) s =
     snd (processOrderFulfillment env s orderId paidAmount tn)"
| "apply_operation (Compensate env orderId) s = snd (markOrderRefunded env s orderId)"

fun run :: "store \<Rightarrow> operation list \<Rightarrow> store" where
  "run s [] = s"
| "run s (step # steps) = run (apply_operation step s) steps"

fun compensated :: "operation list \<Rightarrow> string list" where
  "compensated [] = []"
| "compensated (Fulfil env orderId paidAmount tn # ops) = compensated ops"
| "compensated (Compensate env orderId # ops) = orderId # compensated ops"

text \<open>The status and the card key of an order, if the order is on file.\<close>

definition statusOf :: "store \<Rightarrow> string \<Rightarrow> order_status option" where
  "statusOf s orderId = map_option status (orders s orderId)"

definition cardKeyOf :: "store \<Rightarrow> string \<Rightarrow> string option option" where
  "cardKeyOf s orderId = map_option cardKey (orders s orderId)"

text \<open>
  A list of calls, run one after another, each on the store that the call before it left.
  A call is its surroundings and its three arguments.
\<close>

type_synonym call = "fulfil_env \<times> string \<times> jsnum \<times> string"

definition callOrder :: "call \<Rightarrow> string" where
  "callOrder call = fst (snd call)"

fun fulfilAll :: "store \<Rightarrow> call list \<Rightarrow> store" where
  "fulfilAll s [] = s"
| "fulfilAll s ((env, orderId, paidAmount, tn) # calls) =
     fulfilAll (snd (processOrderFulfillment env s orderId paidAmount tn)) calls"

text \<open>
  A card table with unique ids, no reservation and no empty key; a call whose first
  statement does not fail and that finds its order open, of product \<open>p\<close> and paid with
  an accepted amount; and what such a call
  leaves of the order when it is the \<open>i\<close>-th call and \<open>avail\<close> are the cards that were unused
  before the first.
\<close>

definition tidy :: "card list \<Rightarrow> bool" where
  "tidy cs =
     (distinct (map card_id cs) \<and>
      (\<forall>c\<in>set cs. reserved_order_id c = None \<and> reserved_at c = None \<and> card_key c \<noteq> []))"

definition ready :: "store \<Rightarrow> string \<Rightarrow> call \<Rightarrow> bool" where
  "ready s p call =
     (case call of (env, orderId, paidAmount, tn) \<Rightarrow>
        reservedStmtError env = None \<and>
        (case orders s orderId of
           None \<Rightarrow> False
         | Some ord \<Rightarrow> (status ord = Pending \<or> status ord = Cancelled) \<and> productId ord = p
                       \<and> \<not> amountMismatch paidAmount (amount ord)))"

definition settled :: "card list \<Rightarrow> nat \<Rightarrow> call \<Rightarrow> order \<Rightarrow> order" where
  "settled avail i call ord =
     (case call of (env, orderId, paidAmount, tn) \<Rightarrow>
        if i < length avail
        then ord\<lparr>status := Delivered, paidAt := Some (jsNow env), deliveredAt := Some (jsNow2 env),
                 tradeNo := Some tn, cardKey := Some (card_key (avail ! i))\<rparr>
        else ord\<lparr>status := Paid, paidAt := Some (jsNow env), tradeNo := Some tn\<rparr>)"

section \<open>Sample data\<close>

text \<open>
  A pending order \<open>O\<close> of 9.99 for product \<open>P\<close>, paid by user \<open>u1\<close> with 5 points, and
  one free card of \<open>P\<close>; the same store after the order's delivery, and with a refund
  request on file.
\<close>

definition ex_env :: fulfil_env where
  "ex_env = \<lparr>dbNow = 1000000, jsNow = 1000000, jsNow2 = 1000001, reservedStmtError = None\<rparr>"

definition ex_order :: order where
  "ex_order = \<lparr>productId = ''P'', amount = 999 / 100, status = Pending, tradeNo = None,
      cardKey = None, userId = Some ''u1'', pointsUsed = 5, paidAt = None, deliveredAt = None\<rparr>"

definition ex_card :: card where
  "ex_card = \<lparr>card_id = 1, product_id = ''P'', card_key = ''K1'', is_used = Some False,
      used_at = None, reserved_order_id = None, reserved_at = None\<rparr>"

definition ex_store :: store where
  "ex_store = \<lparr>orders = [''O'' \<mapsto> ex_order], cards = [ex_card],
      loginUsers = [''u1'' \<mapsto> 10], refundRequests = []\<rparr>"

definition ex_delivered :: order where
  "ex_delivered = ex_order\<lparr>status := Delivered, paidAt := Some 1000000,
      deliveredAt := Some 1000001, tradeNo := Some ''T1'', cardKey := Some ''K1''\<rparr>"

definition ex_store_delivered :: store where
  "ex_store_delivered = \<lparr>orders = [''O'' \<mapsto> ex_delivered], cards = [markUsed 1000000 ex_card],
      loginUsers = [''u1'' \<mapsto> 10], refundRequests = []\<rparr>"

definition ex_request :: refund_request where
  "ex_request = \<lparr>req_orderId = ''O'', req_status = ''pending'', processedAt = None, updatedAt = None\<rparr>"

definition ex_store_refund :: store where
  "ex_store_refund = ex_store_delivered\<lparr>refundRequests := [ex_request]\<rparr>"

text \<open>
  An administrator's session, on a runtime whose \<^verbatim>\<open>toLowerCase\<close> is given here as far as the
  sample's names need it, on the letters A to Z; the same session on a database without
  the table of the refund requests, where the last statement fails; and the same with
  the card statement failing.
\<close>

definition ex_toLowerCase :: "string \<Rightarrow> string" where
  "ex_toLowerCase s =
     map (\<lambda>c. let n = (of_char c :: nat) in if 65 \<le> n \<and> n \<le> 90 then char_of (n + 32) else c) s"

definition ex_refund_env :: refund_env where
  "ex_refund_env = \<lparr>username = Some ''Admin'', ADMIN_USERS = Some ''root,admin'',
      toLowerCase = ex_toLowerCase,
      refundNow = 2000000, refundNow2 = 2000000, cardReturnFails = False, refundRequestFails = False\<rparr>"

definition ex_refund_env_no_table :: refund_env where
  "ex_refund_env_no_table = ex_refund_env\<lparr>refundRequestFails := True\<rparr>"

definition ex_refund_env_card_fails :: refund_env where
  "ex_refund_env_card_fails = ex_refund_env\<lparr>cardReturnFails := True\<rparr>"

text \<open>
  A delivered order whose card row is gone from the table, with a refund request on file.
\<close>

definition ex_store_no_card :: store where
  "ex_store_no_card = ex_store_refund\<lparr>cards := []\<rparr>"

text \<open>
  A pending order of 0.24, and one of 33554432.02; a card of \<open>P\<close> whose key is the empty
  string.
\<close>

definition ex_order_24 :: order where
  "ex_order_24 = ex_order\<lparr>amount := 24 / 100\<rparr>"

definition ex_store_24 :: store where
  "ex_store_24 = ex_store\<lparr>orders := [''O'' \<mapsto> ex_order_24]\<rparr>"

definition ex_order_big :: order where
  "ex_order_big = ex_order\<lparr>amount := 3355443202 / 100\<rparr>"

definition ex_store_big :: store where
  "ex_store_big = ex_store\<lparr>orders := [''O'' \<mapsto> ex_order_big]\<rparr>"

definition ex_blank :: card where
  "ex_blank = \<lparr>card_id = 1, product_id = ''P'', card_key = [], is_used = Some False,
      used_at = None, reserved_order_id = None, reserved_at = None\<rparr>"

definition ex_store_blank :: store where
  "ex_store_blank = ex_store\<lparr>cards := [ex_blank]\<rparr>"

text \<open>A delivery, its refund, and a second attempt to deliver.\<close>

definition ex_operations :: "operation list" where
  "ex_operations = [Fulfil ex_env ''O'' (Fin 10) ''T1'', Compensate ex_refund_env ''O'',
                    Fulfil ex_env ''O'' (Fin 10) ''T2'']"

text \<open>
  Two cards of \<open>P\<close> reserved for order \<open>X\<close>, ten seconds and a hundred seconds before
  the database clock of \<open>ex_env\<close>, in a store with the open orders \<open>X\<close> and \<open>Y\<close>.
\<close>

definition ex_fresh :: card where
  "ex_fresh = \<lparr>card_id = 1, product_id = ''P'', card_key = ''K1'', is_used = Some False,
      used_at = None, reserved_order_id = Some ''X'', reserved_at = Some 990000\<rparr>"

definition ex_stale :: card where
  "ex_stale = \<lparr>card_id = 2, product_id = ''P'', card_key = ''K2'', is_used = Some False,
      used_at = None, reserved_order_id = Some ''X'', reserved_at = Some 900000\<rparr>"

definition ex_store_reserved :: store where
  "ex_store_reserved = \<lparr>orders = [''X'' \<mapsto> ex_order, ''Y'' \<mapsto> ex_order],
      cards = [ex_fresh, ex_stale], loginUsers = Map.empty, refundRequests = []\<rparr>"

text \<open>
  Two cards reserved for order \<open>O\<close>: one of another product, with \<^verbatim>\<open>is_used\<close> null,
  and one of the order's product with an old reservation.
\<close>

definition ex_other_product :: card where
  "ex_other_product = \<lparr>card_id = 1, product_id = ''Q'', card_key = ''KQ'', is_used = None,
      used_at = None, reserved_order_id = Some ''O'', reserved_at = Some 990000\<rparr>"

definition ex_old_reservation :: card where
  "ex_old_reservation = \<lparr>card_id = 2, product_id = ''P'', card_key = ''KP'', is_used = Some False,
      used_at = None, reserved_order_id = Some ''O'', reserved_at = Some 100\<rparr>"

definition ex_store_two_reserved :: store where
  "ex_store_two_reserved = \<lparr>orders = [''O'' \<mapsto> ex_order],
      cards = [ex_other_product, ex_old_reservation], loginUsers = Map.empty, refundRequests = []\<rparr>"

text \<open>
  The error of a schema without the reservation columns, an error of another kind, and
  the surroundings of a call on such a schema.
\<close>

definition ex_error_42703 :: db_error where
  "ex_error_42703 = \<lparr>message = Some ''column reserved_order_id does not exist'',
      json = ''{code:42703}''\<rparr>"

definition ex_error_other :: db_error where
  "ex_error_other = \<lparr>message = Some ''deadlock detected'', json = ''{code:40P01}''\<rparr>"

definition ex_env_legacy :: fulfil_env where
  "ex_env_legacy = ex_env\<lparr>reservedStmtError := Some ex_error_42703\<rparr>"

text \<open>Three open orders of \<open>P\<close>, two free cards, and one call for each order.\<close>

definition ex_card2 :: card where
  "ex_card2 = \<lparr>card_id = 2, product_id = ''P'', card_key = ''K2'', is_used = Some False,
      used_at = None, reserved_order_id = None, reserved_at = None\<rparr>"

definition ex_store_three :: store where
  "ex_store_three = \<lparr>orders = [''A'' \<mapsto> ex_order, ''B'' \<mapsto> ex_order, ''C'' \<mapsto> ex_order],
      cards = [ex_card, ex_card2], loginUsers = Map.empty, refundRequests = []\<rparr>"

definition ex_calls :: "call list" where
  "ex_calls = [(ex_env, ''A'', Fin 10, ''T1''), (ex_env, ''B'', Fin 10, ''T2''),
               (ex_env, ''C'', Fin 10, ''T3'')]"

section \<open>Auxiliary facts\<close>

subsection \<open>Rounding\<close>

lemma pow2_pos: "0 < pow2 k"
  by (simp add: pow2_def)

lemma pow2_nat: "pow2 (int n) = 2 ^ n"
  by (simp add: pow2_def)

lemma pow2_neg_nat: "pow2 (- int n) = 1 / 2 ^ n"
  by (cases "n = 0") (simp_all add: pow2_def)

lemma round_half_even_near: "\<bar>of_int (round_half_even r) - r\<bar> \<le> 1 / 2"
proof -
  have "of_int \<lfloor>r\<rfloor> \<le> r" "r < of_int \<lfloor>r\<rfloor> + 1" by linarith+
  then show ?thesis
    by (auto simp: round_half_even_def Let_def)
qed

lemma floorlog2_bounds:
  assumes "1 \<le> n"
  shows "1 \<le> floorlog 2 n" "(2::rat) ^ (floorlog 2 n - 1) \<le> of_nat n"
    "(of_nat n :: rat) + 1 \<le> 2 ^ floorlog 2 n"
proof -
  from assms have b: "2 ^ (floorlog 2 n - 1) \<le> n" "n < 2 ^ floorlog 2 n"
    using floorlog_bounds [of n 2] by simp_all
  from assms b(2) show "1 \<le> floorlog 2 n" by (cases "floorlog 2 n") auto
  from b(1) have "of_nat (2 ^ (floorlog 2 n - 1)) \<le> (of_nat n :: rat)"
    by (simp only: of_nat_le_iff)
  then show "(2::rat) ^ (floorlog 2 n - 1) \<le> of_nat n" by simp
  from b(2) have "n + 1 \<le> 2 ^ floorlog 2 n" by simp
  then have "(of_nat (n + 1) :: rat) \<le> of_nat (2 ^ floorlog 2 n)"
    by (simp only: of_nat_le_iff)
  then show "(of_nat n :: rat) + 1 \<le> 2 ^ floorlog 2 n" by simp
qed

lemma floor_log2_bounds_ge1:
  assumes "1 \<le> a"
  shows "pow2 (floor_log2 a) \<le> a \<and> a < pow2 (floor_log2 a + 1)"
proof -
  define n where "n = nat \<lfloor>a\<rfloor>"
  define L where "L = floorlog 2 n"
  from assms have n1: "1 \<le> n" by (simp add: n_def le_nat_iff)
  note b = floorlog2_bounds [OF n1, folded L_def]
  have fl: "floor_log2 a = int (L - 1)" using assms b(1) by (simp add: floor_log2_def bitlen_def n_def L_def)
  have fl1: "floor_log2 a + 1 = int L" using b(1) by (simp add: fl)
  from assms have na: "of_nat n \<le> a" "a < of_nat n + 1"
    by (simp_all add: n_def) linarith+
  have "pow2 (floor_log2 a) = 2 ^ (L - 1)" by (simp only: fl pow2_nat)
  moreover have "pow2 (floor_log2 a + 1) = 2 ^ L" by (simp only: fl1 pow2_nat)
  ultimately show ?thesis using na b(2,3) by linarith
qed

lemma floor_log2_bounds_lt1:
  assumes "0 < a" "a < 1"
  shows "pow2 (floor_log2 a) \<le> a \<and> a < pow2 (floor_log2 a + 1)"
proof -
  define x where "x = 1 / a"
  define k where "k = nat (\<lceil>x\<rceil> - 1)"
  define L where "L = floorlog 2 k"
  from assms have x1: "1 < x" by (simp add: x_def)
  then have c2: "2 \<le> \<lceil>x\<rceil>" by linarith
  then have k1: "1 \<le> k" unfolding k_def by linarith
  note b = floorlog2_bounds [OF k1, folded L_def]
  from c2 have "(of_nat k :: rat) = of_int (\<lceil>x\<rceil> - 1)"
    unfolding k_def by simp
  then have kx: "of_nat k < x" "x \<le> of_nat k + 1"
    by linarith+
  have fl: "floor_log2 a = - int L" using assms by (simp add: floor_log2_def bitlen_def k_def L_def x_def)
  have fl1: "floor_log2 a + 1 = - int (L - 1)" using b(1) by (simp add: fl)
  have p0: "pow2 (floor_log2 a) = 1 / 2 ^ L" by (simp only: fl pow2_neg_nat)
  have p1: "pow2 (floor_log2 a + 1) = 1 / 2 ^ (L - 1)" by (simp only: fl1 pow2_neg_nat)
  from kx b have "2 ^ (L - 1) < x" "x \<le> 2 ^ L" by linarith+
  then have "1 / 2 ^ L \<le> 1 / x" "1 / x < 1 / 2 ^ (L - 1)"
    using x1 by (simp_all add: frac_le frac_less2)
  moreover from assms have "1 / x = a" by (simp add: x_def)
  ultimately show ?thesis by (simp add: p0 p1)
qed

lemma floor_log2_bounds:
  assumes "0 < a"
  shows "pow2 (floor_log2 a) \<le> a \<and> a < pow2 (floor_log2 a + 1)"
  using assms floor_log2_bounds_ge1 [of a] floor_log2_bounds_lt1 [of a] by (cases "1 \<le> a") auto

lemma pow2_power_int: "pow2 k = power_int 2 k"
  by (simp add: pow2_def power_int_def inverse_eq_divide power_one_over)

lemma pow2_add: "pow2 (j + k) = pow2 j * pow2 k"
  by (simp add: pow2_power_int power_int_add)

lemma pow2_mono: "j \<le> k \<Longrightarrow> pow2 j \<le> pow2 k"
  by (simp add: pow2_power_int power_int_increasing)

lemma round_half_even_le:
  assumes "r \<le> of_int n"
  shows "round_half_even r \<le> n"
proof -
  from assms have f: "\<lfloor>r\<rfloor> \<le> n" by (simp add: floor_le_iff)
  show ?thesis
  proof (cases "\<lfloor>r\<rfloor> < n")
    case True
    then show ?thesis by (auto simp: round_half_even_def Let_def)
  next
    case False
    with f have eq: "\<lfloor>r\<rfloor> = n" by simp
    have "of_int \<lfloor>r\<rfloor> \<le> r" by (rule of_int_floor_le)
    with assms eq have "r - of_int \<lfloor>r\<rfloor> = 0" by simp
    then show ?thesis using eq by (simp add: round_half_even_def Let_def)
  qed
qed

lemma round_half_even_nonneg: "0 \<le> r \<Longrightarrow> 0 \<le> round_half_even r"
  by (auto simp: round_half_even_def Let_def)

text \<open>
  The value that \<open>round_double\<close> returns is an integer of at most 53 bits times the
  unit in the last place, and is within half a unit of the number rounded.
\<close>

lemma round_double_Fin:
  assumes "round_double q = Fin r"
  shows "\<exists>m. r = of_int m * pow2 (max (floor_log2 \<bar>q\<bar> - 52) (- 1074)) \<and> \<bar>m\<bar> \<le> 2 ^ 53
           \<and> \<bar>r - q\<bar> \<le> pow2 (max (floor_log2 \<bar>q\<bar> - 52) (- 1074)) / 2"
proof (cases "q = 0")
  case True
  with assms have "r = 0" by (simp add: round_double_def)
  with True show ?thesis using pow2_pos [of "max (floor_log2 \<bar>q\<bar> - 52) (- 1074)"]
    by (intro exI [of _ 0]) simp
next
  case False
  define ex where "ex = max (floor_log2 \<bar>q\<bar> - 52) (- 1074)"
  define m where "m = round_half_even (\<bar>q\<bar> / pow2 ex)"
  have pos: "0 < pow2 ex" by (rule pow2_pos)
  from False have a: "0 < \<bar>q\<bar>" by simp
  from assms False have r: "r = (if 0 < q then of_int m * pow2 ex else - (of_int m * pow2 ex))"
    by (simp add: round_double_def Let_def m_def ex_def split: if_splits)
  have near: "\<bar>of_int m - \<bar>q\<bar> / pow2 ex\<bar> \<le> 1 / 2"
    unfolding m_def by (rule round_half_even_near)
  have "of_int m * pow2 ex - \<bar>q\<bar> = (of_int m - \<bar>q\<bar> / pow2 ex) * pow2 ex"
    using pos by (simp add: left_diff_distrib)
  then have "\<bar>of_int m * pow2 ex - \<bar>q\<bar>\<bar> = \<bar>of_int m - \<bar>q\<bar> / pow2 ex\<bar> * \<bar>pow2 ex\<bar>"
    by (simp only: abs_mult)
  also have "\<dots> = \<bar>of_int m - \<bar>q\<bar> / pow2 ex\<bar> * pow2 ex"
    using pos by simp
  also have "\<dots> \<le> 1 / 2 * pow2 ex"
    using near pos by (simp add: mult_right_mono)
  finally have err: "\<bar>of_int m * pow2 ex - \<bar>q\<bar>\<bar> \<le> pow2 ex / 2" by simp
  have m0: "0 \<le> m" unfolding m_def using a pos by (intro round_half_even_nonneg) simp
  have "\<bar>q\<bar> < pow2 (floor_log2 \<bar>q\<bar> + 1)" using floor_log2_bounds [OF a] by simp
  also have "\<dots> = pow2 53 * pow2 (floor_log2 \<bar>q\<bar> - 52)"
  proof -
    have "floor_log2 \<bar>q\<bar> + 1 = 53 + (floor_log2 \<bar>q\<bar> - 52)" by simp
    then show ?thesis by (simp only: pow2_add)
  qed
  also have "\<dots> \<le> pow2 53 * pow2 ex"
    using pow2_mono [of "floor_log2 \<bar>q\<bar> - 52" ex] pow2_pos [of 53] by (simp add: ex_def)
  finally have "\<bar>q\<bar> / pow2 ex \<le> pow2 53" using pos by (simp add: pos_divide_le_eq)
  then have "\<bar>q\<bar> / pow2 ex \<le> of_int (2 ^ 53)" by (simp add: pow2_def)
  then have m53: "m \<le> 2 ^ 53" unfolding m_def by (rule round_half_even_le)
  show ?thesis
  proof (cases "0 < q")
    case True
    with r err m0 m53 show ?thesis
      by (intro exI [of _ m]) (simp add: ex_def)
  next
    case neg: False
    with False have q: "\<bar>q\<bar> = - q" by simp
    from r neg have "r - q = - (of_int m * pow2 ex - \<bar>q\<bar>)" by (simp add: q)
    then have "\<bar>r - q\<bar> = \<bar>of_int m * pow2 ex - \<bar>q\<bar>\<bar>" by (simp only: abs_minus)
    with err have "\<bar>r - q\<bar> \<le> pow2 ex / 2" by simp
    with r neg m0 m53 show ?thesis
      by (intro exI [of _ "- m"]) (simp add: ex_def)
  qed
qed

text \<open>How the powers of two and the rounding to an integer are ordered.\<close>

lemma pow2_less_imp: "pow2 j < pow2 k \<Longrightarrow> j < k"
  using pow2_mono [of k j] by (cases "j < k") auto

lemma floor_log2_unique:
  assumes "0 < x" "pow2 k \<le> x" "x < pow2 (k + 1)"
  shows "floor_log2 x = k"
proof -
  from floor_log2_bounds [OF assms(1)]
  have b: "pow2 (floor_log2 x) \<le> x" "x < pow2 (floor_log2 x + 1)" by simp_all
  from b(1) assms(3) have "floor_log2 x < k + 1" by (intro pow2_less_imp) simp
  moreover from assms(2) b(2) have "k < floor_log2 x + 1" by (intro pow2_less_imp) simp
  ultimately show ?thesis by simp
qed

lemma round_half_even_ge:
  assumes "of_int n \<le> r"
  shows "n \<le> round_half_even r"
proof -
  from assms have "n \<le> \<lfloor>r\<rfloor>" by (simp add: le_floor_iff)
  then show ?thesis by (auto simp: round_half_even_def Let_def)
qed

text \<open>Above an odd integer the rounding goes up from the half on.\<close>

lemma round_half_even_odd:
  assumes "odd n"
  shows "n < round_half_even r \<longleftrightarrow> of_int n + 1 / 2 \<le> r"
proof
  assume up: "of_int n + 1 / 2 \<le> r"
  show "n < round_half_even r"
  proof (cases "of_int (n + 1) \<le> r")
    case True
    then have "n + 1 \<le> round_half_even r" by (rule round_half_even_ge)
    then show ?thesis by simp
  next
    case False
    with up have "\<lfloor>r\<rfloor> = n" by (simp add: floor_unique)
    with up assms show ?thesis by (auto simp: round_half_even_def Let_def)
  qed
next
  assume gt: "n < round_half_even r"
  show "of_int n + 1 / 2 \<le> r"
  proof (rule ccontr)
    assume "\<not> ?thesis"
    then have lt: "r < of_int n + 1 / 2" by simp
    show False
    proof (cases "r < of_int n")
      case True
      then have "r \<le> of_int n" by simp
      then have "round_half_even r \<le> n" by (rule round_half_even_le)
      with gt show False by simp
    next
      case False
      with lt have "\<lfloor>r\<rfloor> = n" by (simp add: floor_unique)
      with lt have "round_half_even r = n" by (simp add: round_half_even_def Let_def)
      with gt show False by simp
    qed
  qed
qed

lemma pow2_diff: "pow2 (j - k) = pow2 j / pow2 k"
proof -
  have "pow2 j = pow2 (j - k) * pow2 k" using pow2_add [of "j - k" k] by simp
  then show ?thesis using pow2_pos [of k] by simp
qed

lemma pow2_strict_mono: "j < k \<Longrightarrow> pow2 j < pow2 k"
  by (simp add: pow2_power_int power_int_strict_increasing)

lemma pow2_le_imp: "pow2 j \<le> pow2 k \<Longrightarrow> j \<le> k"
  using pow2_strict_mono [of k j] by (cases "j \<le> k") auto

text \<open>Rounding keeps a number on its side of a power of two, and goes with the sign.\<close>

lemma round_double_le_pow2:
  assumes x: "0 < x" "x \<le> pow2 k" and k: "- 1074 \<le> k" "k < 1024"
  shows "\<exists>r. round_double x = Fin r \<and> 0 \<le> r \<and> r \<le> pow2 k"
proof -
  define ex where "ex = max (floor_log2 x - 52) (- 1074)"
  define m where "m = round_half_even (x / pow2 ex)"
  have pos: "0 < pow2 ex" by (rule pow2_pos)
  from floor_log2_bounds [OF x(1)] x(2) have "pow2 (floor_log2 x) \<le> pow2 k" by simp
  then have "floor_log2 x \<le> k" by (rule pow2_le_imp)
  with k have exk: "ex \<le> k" by (simp add: ex_def)
  then have int: "pow2 (k - ex) = 2 ^ nat (k - ex)" by (simp add: pow2_def)
  from x(2) pos have "x / pow2 ex \<le> pow2 k / pow2 ex" by (simp add: divide_right_mono)
  then have "x / pow2 ex \<le> 2 ^ nat (k - ex)" by (simp only: pow2_diff [symmetric] int)
  then have "x / pow2 ex \<le> of_int (2 ^ nat (k - ex))" by simp
  then have "m \<le> 2 ^ nat (k - ex)" unfolding m_def by (rule round_half_even_le)
  then have "(of_int m :: rat) \<le> of_int (2 ^ nat (k - ex))" by (simp only: of_int_le_iff)
  then have "(of_int m :: rat) \<le> pow2 (k - ex)" by (simp add: int)
  then have "of_int m * pow2 ex \<le> pow2 (k - ex) * pow2 ex"
    using pos by (simp only: mult_right_mono less_imp_le)
  then have le: "of_int m * pow2 ex \<le> pow2 k" using pos by (simp add: pow2_diff)
  from x(1) pos have "0 \<le> m" unfolding m_def by (intro round_half_even_nonneg) simp
  then have nn: "0 \<le> of_int m * pow2 ex" using pos by simp
  from k(2) have "pow2 k < pow2 1024" by (rule pow2_strict_mono)
  with le have fin: "\<not> pow2 1024 \<le> of_int m * pow2 ex" by simp
  from x(1) fin have "round_double x = Fin (of_int m * pow2 ex)"
    by (simp add: round_double_def Let_def m_def ex_def)
  with le nn show ?thesis by simp
qed

lemma round_double_ge_pow2:
  assumes x: "pow2 k \<le> x" and k: "- 1022 \<le> k"
  shows "round_double x = PInf \<or> (\<exists>r. round_double x = Fin r \<and> pow2 k \<le> r)"
proof -
  from x pow2_pos [of k] have x0: "0 < x" by simp
  define j where "j = floor_log2 x"
  define m where "m = round_half_even (x / pow2 (j - 52))"
  note b = floor_log2_bounds [OF x0, folded j_def]
  from x b have "pow2 k < pow2 (j + 1)" by simp
  then have kj: "k \<le> j" using pow2_less_imp [of k "j + 1"] by simp
  with k have ex: "max (j - 52) (- 1074) = j - 52" by simp
  have pos: "0 < pow2 (j - 52)" by (rule pow2_pos)
  have "pow2 52 = pow2 j / pow2 (j - 52)" using pow2_diff [of j "j - 52"] by simp
  also have "\<dots> \<le> x / pow2 (j - 52)" using b pos by (simp add: divide_right_mono)
  finally have "of_int (2 ^ 52) \<le> x / pow2 (j - 52)" by (simp add: pow2_def)
  then have "2 ^ 52 \<le> m" unfolding m_def by (rule round_half_even_ge)
  then have "(of_int (2 ^ 52) :: rat) \<le> of_int m" by (simp only: of_int_le_iff)
  then have "pow2 52 \<le> of_int m" by (simp add: pow2_def)
  then have "pow2 52 * pow2 (j - 52) \<le> of_int m * pow2 (j - 52)"
    using pos by (simp only: mult_right_mono less_imp_le)
  then have "pow2 j \<le> of_int m * pow2 (j - 52)"
    using pow2_add [of 52 "j - 52"] by simp
  with pow2_mono [OF kj] have r: "pow2 k \<le> of_int m * pow2 (j - 52)" by simp
  from x0 have "round_double x =
      (if pow2 1024 \<le> of_int m * pow2 (j - 52) then PInf else Fin (of_int m * pow2 (j - 52)))"
    by (simp add: round_double_def Let_def m_def j_def [symmetric] ex)
  with r show ?thesis by auto
qed

lemma round_double_abs: "js_abs (round_double q) = round_double \<bar>q\<bar>"
proof (cases "0 \<le> q")
  case True
  then have nn: "0 \<le> of_int (round_half_even (\<bar>q\<bar> / pow2 k)) * pow2 k" for k
    using pow2_pos [of k] by (intro mult_nonneg_nonneg) (simp_all add: round_half_even_nonneg)
  from True show ?thesis
    using nn by (auto simp: round_double_def Let_def)
next
  case False
  then have q: "q < 0" "\<bar>q\<bar> = - q" by simp_all
  have nn: "0 \<le> of_int (round_half_even (- q / pow2 k)) * pow2 k" for k
  proof -
    have "0 \<le> (- q) / pow2 k"
      by (rule divide_nonneg_pos) (use q pow2_pos [of k] in simp_all)
    then have "0 \<le> - q / pow2 k" by simp
    then have "0 \<le> round_half_even (- q / pow2 k)" by (rule round_half_even_nonneg)
    with pow2_pos [of k] show ?thesis by simp
  qed
  from q show ?thesis
    using nn by (auto simp: round_double_def Let_def)
qed

subsection \<open>The amounts of the samples\<close>

lemma floor_rat_numeral: "\<lfloor>numeral a / numeral b :: rat\<rfloor> = numeral a div numeral b"
  by (metis floor_divide_of_int_eq of_int_numeral)

lemma ceiling_rat_numeral: "\<lceil>numeral a / numeral b :: rat\<rceil> = - (- numeral a div numeral b)"
  by (metis ceiling_def floor_divide_of_int_eq minus_divide_left of_int_minus of_int_numeral)

lemmas num_eval = floor_log2_def bitlen_def pow2_def round_half_even_def compute_floorlog
  floor_rat_numeral ceiling_rat_numeral

lemma double_9_99: "round_double (999 / 100) = Fin (5623870034678907 / 562949953421312)"
  apply (simp only: round_double_def Let_def)
  apply (simp add: num_eval)
  done

lemma double_0_01: "round_double (1 / 100) = Fin (5764607523034235 / 576460752303423488)"
  apply (simp only: round_double_def Let_def)
  apply (simp add: num_eval)
  done

lemma double_0_1: "round_double (1 / 10) = Fin (3602879701896397 / 36028797018963968)"
  apply (simp only: round_double_def Let_def)
  apply (simp add: num_eval)
  done

lemma sub_10_9_99:
  "js_sub (Fin 10) (round_double (999 / 100)) = Fin (5629499534213 / 562949953421312)"
  apply (simp only: double_9_99 js_sub.simps)
  apply (simp only: round_double_def Let_def)
  apply (simp add: num_eval)
  done

lemma pays_10_for_9_99: "\<not> amountMismatch (Fin 10) (999 / 100)"
  by (simp add: amountMismatch_def parseFloat_def sub_10_9_99 double_0_01)

lemma pays_9_99_for_9_99: "\<not> amountMismatch (round_double (999 / 100)) (999 / 100)"
  apply (simp only: amountMismatch_def parseFloat_def Let_def double_9_99 double_0_01 js_sub.simps)
  apply (simp add: round_double_def)
  done

lemma pays_5_for_9_99: "amountMismatch (Fin 5) (999 / 100)"
  apply (simp only: amountMismatch_def parseFloat_def Let_def double_9_99 double_0_01 js_sub.simps)
  apply (simp only: round_double_def Let_def)
  apply (simp add: num_eval)
  done

subsection \<open>The threshold of the amount check\<close>

lemma round_double_binade:
  assumes lo: "1 / 128 \<le> x" and hi: "x < 1 / 64"
  shows "round_double x = Fin (of_int (round_half_even (x * 576460752303423488)) / 576460752303423488)"
proof -
  from lo have x0: "0 < x" by simp
  have fl: "floor_log2 x = - 7"
    using x0 lo hi by (intro floor_log2_unique) (simp_all add: pow2_def)
  then have ex: "max (floor_log2 x - 52) (- 1074) = - 59" by simp
  define m where "m = round_half_even (x * 576460752303423488)"
  have val: "of_int (round_half_even (x / pow2 (- 59))) * pow2 (- 59)
               = of_int m / 576460752303423488"
    by (simp add: m_def pow2_def)
  from x0 have rd: "round_double x =
      (if pow2 1024 \<le> of_int (round_half_even (x / pow2 (- 59))) * pow2 (- 59) then PInf
       else Fin (of_int (round_half_even (x / pow2 (- 59))) * pow2 (- 59)))"
    by (simp add: round_double_def Let_def ex)
  from hi have "x * 576460752303423488 \<le> of_int 9007199254740992" by simp
  then have m53: "m \<le> 9007199254740992" unfolding m_def by (rule round_half_even_le)
  then have "(of_int m :: rat) \<le> of_int 9007199254740992" by (simp only: of_int_le_iff)
  then have "(of_int m :: rat) / 576460752303423488 \<le> 9007199254740992 / 576460752303423488"
    by (simp add: divide_right_mono)
  also have "\<dots> < pow2 1024" by (simp add: pow2_def)
  finally have small: "\<not> pow2 1024 \<le> of_int m / 576460752303423488" by simp
  show ?thesis unfolding rd val using small by (simp add: m_def)
qed

lemma exceeds_cent:
  assumes x: "0 \<le> x"
  shows "js_gt (round_double x) (round_double (1 / 100))
           \<longleftrightarrow> 11529215046068471 / 1152921504606846976 \<le> x"
proof -
  consider (zero) "x = 0" | (low) "0 < x" "x < 1 / 128" | (mid) "1 / 128 \<le> x" "x < 1 / 64"
    | (high) "1 / 64 \<le> x"
    using x by linarith
  then show ?thesis
  proof cases
    case zero
    have "round_double 0 = Fin 0" by (simp add: round_double_def)
    with zero show ?thesis by (simp add: double_0_01)
  next
    case low
    have "x \<le> pow2 (- 7)" using low by (simp add: pow2_def)
    from round_double_le_pow2 [OF low(1) this] obtain r
      where r: "round_double x = Fin r" "r \<le> pow2 (- 7)" by auto
    from r(2) have "r \<le> 1 / 128" by (simp add: pow2_def)
    with r(1) low show ?thesis by (simp add: double_0_01)
  next
    case mid
    define m where "m = round_half_even (x * 576460752303423488)"
    have odd: "odd (5764607523034235 :: int)" by simp
    have "js_gt (round_double x) (round_double (1 / 100))
            \<longleftrightarrow> (5764607523034235 :: rat) / 576460752303423488 < of_int m / 576460752303423488"
      by (simp only: round_double_binade [OF mid] double_0_01 js_gt.simps m_def)
    also have "\<dots> \<longleftrightarrow> (of_int 5764607523034235 :: rat) < of_int m"
      by (simp add: divide_less_cancel)
    also have "\<dots> \<longleftrightarrow> 5764607523034235 < m" by (simp only: of_int_less_iff)
    also have "\<dots> \<longleftrightarrow> of_int 5764607523034235 + 1 / 2 \<le> x * 576460752303423488"
      unfolding m_def by (rule round_half_even_odd [OF odd])
    also have "\<dots> \<longleftrightarrow> 11529215046068471 / 1152921504606846976 \<le> x" by (simp add: field_simps)
    finally show ?thesis .
  next
    case high
    then have "pow2 (- 6) \<le> x" by (simp add: pow2_def)
    from round_double_ge_pow2 [OF this]
    have "round_double x = PInf \<or> (\<exists>r. round_double x = Fin r \<and> 1 / 64 \<le> r)"
      by (simp add: pow2_def)
    with high show ?thesis by (auto simp: double_0_01)
  qed
qed

text \<open>The test of line 18 on finite numbers, in exact arithmetic.\<close>

lemma amountMismatch_iff:
  assumes "parseFloat a = Fin a'"
  shows "amountMismatch (Fin p) a \<longleftrightarrow> mismatchThreshold \<le> \<bar>p - a'\<bar>"
proof -
  have "amountMismatch (Fin p) a
          \<longleftrightarrow> js_gt (js_abs (round_double (p - a'))) (round_double (1 / 100))"
    using assms by (simp add: amountMismatch_def Let_def)
  also have "\<dots> \<longleftrightarrow> js_gt (round_double \<bar>p - a'\<bar>) (round_double (1 / 100))"
    by (simp only: round_double_abs)
  also have "\<dots> \<longleftrightarrow> 11529215046068471 / 1152921504606846976 \<le> \<bar>p - a'\<bar>"
    by (rule exceeds_cent) simp
  finally show ?thesis by (simp only: mismatchThreshold_def)
qed

lemma amountMismatch_infinite:
  assumes "parseFloat a = Fin a'"
  shows "amountMismatch PInf a" "amountMismatch NInf a" "\<not> amountMismatch NaN a"
  using assms by (simp_all add: amountMismatch_def Let_def double_0_01)

lemma double_0_24: "round_double (24 / 100) = Fin (1080863910568919 / 4503599627370496)"
  apply (simp only: round_double_def Let_def)
  apply (simp add: num_eval)
  done

lemma double_33554432_02:
  "round_double (3355443202 / 100) = Fin (4503599630054851 / 134217728)"
  apply (simp only: round_double_def Let_def)
  apply (simp add: num_eval)
  done

lemma pays_0_25_for_0_24: "amountMismatch (Fin (1 / 4)) (24 / 100)"
proof -
  have "parseFloat (24 / 100) = Fin (1080863910568919 / 4503599627370496)"
    unfolding parseFloat_def by (rule double_0_24)
  from amountMismatch_iff [OF this, of "1 / 4"] show ?thesis
    by (simp add: mismatchThreshold_def)
qed

lemma pays_33554432_03_for_33554432_02:
  "\<not> amountMismatch (Fin (1125899907849257 / 33554432)) (3355443202 / 100)"
proof -
  have "parseFloat (3355443202 / 100) = Fin (4503599630054851 / 134217728)"
    unfolding parseFloat_def by (rule double_33554432_02)
  from amountMismatch_iff [OF this, of "1125899907849257 / 33554432"] show ?thesis
    by (simp add: mismatchThreshold_def)
qed

subsection \<open>Statements on the card table\<close>

lemma length_updateReturning: "length (fst (updateReturning P f cs)) = length cs"
  by (simp add: updateReturning_def)

lemma nth_updateReturning:
  "i < length cs \<Longrightarrow> fst (updateReturning P f cs) ! i = (if P (cs ! i) then f (cs ! i) else cs ! i)"
  by (simp add: updateReturning_def)

lemma updateReturning_none:
  assumes "\<forall>c\<in>set cs. \<not> P c"
  shows "updateReturning P f cs = (cs, [])"
proof -
  have "map (\<lambda>c. if P c then f c else c) cs = cs"
    using assms by (intro map_idI) simp
  moreover have "filter P cs = []"
    using assms by (simp add: filter_empty_conv)
  ultimately show ?thesis by (simp add: updateReturning_def)
qed

lemma firstKey_None: "firstKey rows = None \<longleftrightarrow> rows = []"
  by (cases rows) (simp_all add: firstKey_def)

lemma firstKey_Some: "firstKey rows = Some k \<Longrightarrow> rows \<noteq> [] \<and> hd rows = k"
  by (cases rows) (simp_all add: firstKey_def)

lemma firstKey_hd: "rows \<noteq> [] \<Longrightarrow> firstKey rows = Some (hd rows)"
  by (cases rows) (simp_all add: firstKey_def)

lemma rows_member:
  assumes "firstKey (snd (updateReturning P f cs)) = Some k"
  shows "\<exists>c\<in>set cs. P c \<and> card_key c = k"
proof -
  from assms have ne: "map card_key (filter P cs) \<noteq> []" and k: "hd (map card_key (filter P cs)) = k"
    using firstKey_Some by (fastforce simp: updateReturning_def)+
  from ne have "filter P cs \<noteq> []" by simp
  then have "hd (filter P cs) \<in> set (filter P cs)" by (rule hd_in_set)
  moreover have "card_key (hd (filter P cs)) = k"
    using k \<open>filter P cs \<noteq> []\<close> by (simp add: hd_map)
  ultimately show ?thesis by auto
qed

lemma selectFirstId_None: "selectFirstId P cs = None \<longleftrightarrow> (\<forall>c\<in>set cs. \<not> P c)"
proof (cases "filter P cs")
  case Nil
  then show ?thesis by (simp add: selectFirstId_def filter_empty_conv)
next
  case (Cons c rest)
  then have "c \<in> set (filter P cs)" by simp
  then have "\<exists>c\<in>set cs. P c" by auto
  then show ?thesis using Cons by (simp add: selectFirstId_def)
qed

lemma selectFirstId_Some:
  assumes "selectFirstId P cs = Some i"
  shows "\<exists>c\<in>set cs. P c \<and> card_id c = i"
proof -
  from assms obtain c rest where f: "filter P cs = c # rest" and i: "card_id c = i"
    by (auto simp: selectFirstId_def split: list.splits)
  from f have "c \<in> set (filter P cs)" by simp
  then show ?thesis using i by auto
qed

subsection \<open>The claim of a card\<close>

lemma markUsed_fields [simp]:
  "card_id (markUsed now c) = card_id c"
  "product_id (markUsed now c) = product_id c"
  "card_key (markUsed now c) = card_key c"
  "\<not> unused (markUsed now c)"
  "markUsed now (markUsed now c) = markUsed now c"
  by (simp_all add: markUsed_def unused_def)

lemma markUsedLegacy_fields [simp]:
  "card_id (markUsedLegacy now c) = card_id c"
  "product_id (markUsedLegacy now c) = product_id c"
  "card_key (markUsedLegacy now c) = card_key c"
  "\<not> unused (markUsedLegacy now c)"
  by (simp_all add: markUsedLegacy_def unused_def)

lemma claimCard_rethrow:
  "reservedStmtError env = Some e \<Longrightarrow> \<not> isUndefinedColumn e \<Longrightarrow> claimCard env oid ord cs = Inl e"
  by (simp add: claimCard_def)

lemma claimCard_aborted:
  "reservedStmtError env = Some e \<Longrightarrow> isUndefinedColumn e \<Longrightarrow>
   claimCard env oid ord cs = Inl inFailedTransaction"
  by (simp add: claimCard_def truthy_def execute_def)

lemma claimCard_reserved:
  "reservedStmtError env = None \<Longrightarrow>
   truthy (firstKey (snd (claimReserved (dbNow env) oid cs))) \<Longrightarrow>
   claimCard env oid ord cs =
     Inr (firstKey (snd (claimReserved (dbNow env) oid cs)), fst (claimReserved (dbNow env) oid cs))"
  by (simp add: claimCard_def split_beta)

lemma claimCard_available:
  "reservedStmtError env = None \<Longrightarrow>
   \<not> truthy (firstKey (snd (claimReserved (dbNow env) oid cs))) \<Longrightarrow>
   claimCard env oid ord cs =
     Inr (firstKey (snd (claimAvailable (dbNow env) (productId ord) (fst (claimReserved (dbNow env) oid cs)))),
          fst (claimAvailable (dbNow env) (productId ord) (fst (claimReserved (dbNow env) oid cs))))"
  by (simp add: claimCard_def execute_def split_beta)

text \<open>The four ways through the claim.\<close>

lemma claimCard_cases:
  obtains (rethrow) e where "reservedStmtError env = Some e" "\<not> isUndefinedColumn e"
      "claimCard env oid ord cs = Inl e"
  | (legacy) e where "reservedStmtError env = Some e" "isUndefinedColumn e"
      "claimCard env oid ord cs = Inl inFailedTransaction"
  | (reserved) "reservedStmtError env = None"
      "truthy (firstKey (snd (claimReserved (dbNow env) oid cs)))"
      "claimCard env oid ord cs =
         Inr (firstKey (snd (claimReserved (dbNow env) oid cs)), fst (claimReserved (dbNow env) oid cs))"
  | (available) "reservedStmtError env = None"
      "\<not> truthy (firstKey (snd (claimReserved (dbNow env) oid cs)))"
      "claimCard env oid ord cs =
         Inr (firstKey (snd (claimAvailable (dbNow env) (productId ord) (fst (claimReserved (dbNow env) oid cs)))),
              fst (claimAvailable (dbNow env) (productId ord) (fst (claimReserved (dbNow env) oid cs))))"
proof (cases "reservedStmtError env")
  case None
  then show ?thesis
    using claimCard_reserved [of env oid cs ord] claimCard_available [of env oid cs ord] reserved available
    by (cases "truthy (firstKey (snd (claimReserved (dbNow env) oid cs)))") blast+
next
  case (Some e)
  then show ?thesis
    using claimCard_rethrow [of env e oid ord cs] claimCard_aborted [of env e oid ord cs] rethrow legacy
    by (cases "isUndefinedColumn e") blast+
qed

lemma claimCard_total:
  assumes "reservedStmtError env = None"
  shows "\<exists>ck cs'. claimCard env oid ord cs = Inr (ck, cs')"
  using assms by (cases rule: claimCard_cases [of env oid ord cs]) auto

lemma claimCard_length:
  assumes "claimCard env oid ord cs = Inr (ck, cs')"
  shows "length cs' = length cs"
  using assms
  by (cases rule: claimCard_cases [of env oid ord cs])
     (auto simp: claimReserved_def claimAvailable_def length_updateReturning)

lemma claimCard_nothing:
  assumes "claimCard env oid ord cs = Inr (ck, cs')"
    and none: "\<forall>c\<in>set cs. \<not> claimable env oid ord c"
  shows "ck = None \<and> cs' = cs"
proof (cases rule: claimCard_cases [of env oid ord cs])
  case (rethrow e)
  with assms show ?thesis by simp
next
  case (legacy e)
  with assms show ?thesis by simp
next
  case reserved
  from none have "\<forall>c\<in>set cs. \<not> reservedFor oid c"
    by (simp add: claimable_def)
  then have "claimReserved (dbNow env) oid cs = (cs, [])"
    by (simp add: claimReserved_def updateReturning_none)
  with reserved(2) show ?thesis by (simp add: firstKey_def truthy_def)
next
  case available
  from none have r: "\<forall>c\<in>set cs. \<not> reservedFor oid c"
    and e: "\<forall>c\<in>set cs. \<not> eligible (dbNow env) (productId ord) c"
    by (simp_all add: claimable_def)
  from r have cr: "claimReserved (dbNow env) oid cs = (cs, [])"
    by (simp add: claimReserved_def updateReturning_none)
  from e have "selectFirstId (eligible (dbNow env) (productId ord)) cs = None"
    by (simp add: selectFirstId_None)
  then have "claimAvailable (dbNow env) (productId ord) cs = (cs, [])"
    by (simp add: claimAvailable_def updateReturning_none hasId_def)
  with available(3) cr assms(1) show ?thesis by (simp add: firstKey_def)
qed

text \<open>A selected id marks the card it was selected from.\<close>

lemma select_update_flips:
  assumes sel: "selectFirstId P cs = Some i"
    and P: "\<And>c. P c \<Longrightarrow> unused c"
    and f: "\<And>c. \<not> unused (f c)"
  shows "\<exists>n<length cs. unused (cs ! n) \<and> \<not> unused (fst (updateReturning (hasId (Some i)) f cs) ! n)"
proof -
  from selectFirstId_Some [OF sel] obtain c where c: "c \<in> set cs" "P c" "card_id c = i" by blast
  then obtain n where n: "n < length cs" "cs ! n = c" by (auto simp: in_set_conv_nth)
  with c have "fst (updateReturning (hasId (Some i)) f cs) ! n = f c"
    by (simp add: nth_updateReturning hasId_def)
  with n c P f show ?thesis by auto
qed

lemma select_update_rows:
  assumes sel: "selectFirstId P cs = Some i"
  shows "snd (updateReturning (hasId (Some i)) f cs) \<noteq> []"
proof -
  from selectFirstId_Some [OF sel] obtain c where c: "c \<in> set cs" "card_id c = i" by blast
  then have "c \<in> set (filter (hasId (Some i)) cs)" by (simp add: hasId_def)
  then have "filter (hasId (Some i)) cs \<noteq> []" by (auto simp: filter_empty_conv)
  then show ?thesis by (simp add: updateReturning_def)
qed

lemma rows_by_id_None: "firstKey (snd (updateReturning (hasId None) f cs)) = None"
  by (simp add: updateReturning_def hasId_def firstKey_def)

lemma claimReserved_keys:
  "card_key ` set (fst (claimReserved now oid cs)) = card_key ` set cs"
proof -
  have "map card_key (fst (claimReserved now oid cs)) = map card_key cs"
    by (simp add: claimReserved_def updateReturning_def)
  then have "set (map card_key (fst (claimReserved now oid cs))) = set (map card_key cs)"
    by simp
  then show ?thesis by (simp only: set_map)
qed

lemma claimCard_flips:
  assumes cc: "claimCard env oid ord cs = Inr (ck, cs')" and t: "truthy ck"
  shows "\<exists>n<length cs. unused (cs ! n) \<and> \<not> unused (cs' ! n)"
proof (cases rule: claimCard_cases [of env oid ord cs])
  case (rethrow e)
  with cc show ?thesis by simp
next
  case (legacy e)
  with cc show ?thesis by simp
next
  case reserved
  from reserved(3) cc have ck: "ck = firstKey (snd (claimReserved (dbNow env) oid cs))"
    and cs': "cs' = fst (claimReserved (dbNow env) oid cs)" by simp_all
  from t ck obtain k where "firstKey (snd (claimReserved (dbNow env) oid cs)) = Some k"
    by (auto simp: truthy_def split: option.splits)
  then obtain c where c: "c \<in> set cs" "reservedFor oid c"
    using rows_member [of "reservedFor oid" "markUsed (dbNow env)" cs k]
    by (auto simp: claimReserved_def)
  then obtain n where n: "n < length cs" "cs ! n = c" by (auto simp: in_set_conv_nth)
  with c have "cs' ! n = markUsed (dbNow env) c"
    by (simp add: cs' claimReserved_def nth_updateReturning)
  with n c show ?thesis by (auto simp: reservedFor_def)
next
  case available
  let ?cs1 = "fst (claimReserved (dbNow env) oid cs)"
  let ?sel = "selectFirstId (eligible (dbNow env) (productId ord)) ?cs1"
  from available(3) cc have ck: "ck = firstKey (snd (claimAvailable (dbNow env) (productId ord) ?cs1))"
    and cs': "cs' = fst (claimAvailable (dbNow env) (productId ord) ?cs1)" by simp_all
  from t ck obtain i where sel: "?sel = Some i"
    by (cases ?sel) (auto simp: claimAvailable_def rows_by_id_None truthy_def)
  from select_update_flips [OF sel, of "markUsed (dbNow env)"]
  obtain n where n: "n < length ?cs1" "unused (?cs1 ! n)" "\<not> unused (cs' ! n)"
    by (auto simp: cs' claimAvailable_def sel eligible_def)
  from n(1) have len: "n < length cs" by (simp add: claimReserved_def length_updateReturning)
  then have "?cs1 ! n = (if reservedFor oid (cs ! n) then markUsed (dbNow env) (cs ! n) else cs ! n)"
    by (simp add: claimReserved_def nth_updateReturning)
  with n(2) have "unused (cs ! n)" by (auto split: if_splits)
  with len n(3) show ?thesis by blast
qed

lemma claimCard_key_in_table:
  assumes cc: "claimCard env oid ord cs = Inr (Some k, cs')"
  shows "k \<in> card_key ` set cs"
proof (cases rule: claimCard_cases [of env oid ord cs])
  case (rethrow e)
  with cc show ?thesis by simp
next
  case (legacy e)
  with cc show ?thesis by simp
next
  case reserved
  with cc have "firstKey (snd (claimReserved (dbNow env) oid cs)) = Some k" by simp
  then show ?thesis
    unfolding claimReserved_def by (auto dest: rows_member)
next
  case available
  let ?cs1 = "fst (claimReserved (dbNow env) oid cs)"
  from available cc have "firstKey (snd (claimAvailable (dbNow env) (productId ord) ?cs1)) = Some k"
    by simp
  then have "k \<in> card_key ` set ?cs1"
    unfolding claimAvailable_def by (auto dest: rows_member)
  then show ?thesis by (simp add: claimReserved_keys)
qed

lemma rows_truthy:
  assumes keys: "\<forall>c\<in>set cs. card_key c \<noteq> []" and ne: "\<exists>c\<in>set cs. P c"
  shows "truthy (firstKey (snd (updateReturning P f cs)))"
proof -
  from ne have "filter P cs \<noteq> []" by (auto simp: filter_empty_conv)
  then have rows: "snd (updateReturning P f cs) \<noteq> []" by (simp add: updateReturning_def)
  then obtain k where k: "firstKey (snd (updateReturning P f cs)) = Some k"
    using firstKey_hd by blast
  from rows_member [OF k] keys have "k \<noteq> []" by auto
  with k show ?thesis by (simp add: truthy_def)
qed

lemma select_update_truthy:
  assumes keys: "\<forall>c\<in>set cs. card_key c \<noteq> []" and ne: "\<exists>c\<in>set cs. P c"
  shows "truthy (firstKey (snd (updateReturning (hasId (selectFirstId P cs)) f cs)))"
proof -
  from ne obtain i where sel: "selectFirstId P cs = Some i"
    using selectFirstId_None [of P cs] by (cases "selectFirstId P cs") auto
  from selectFirstId_Some [OF sel] have "\<exists>c\<in>set cs. hasId (selectFirstId P cs) c"
    by (auto simp: sel hasId_def)
  with keys show ?thesis by (rule rows_truthy)
qed

lemma claimCard_claims:
  assumes cc: "claimCard env oid ord cs = Inr (ck, cs')"
    and keys: "\<forall>c\<in>set cs. card_key c \<noteq> []"
    and some: "\<exists>c\<in>set cs. claimable env oid ord c"
  shows "truthy ck"
proof (cases rule: claimCard_cases [of env oid ord cs])
  case (rethrow e)
  with cc show ?thesis by simp
next
  case (legacy e)
  with cc show ?thesis by simp
next
  case reserved
  with cc show ?thesis by simp
next
  case available
  have nores: "\<forall>c\<in>set cs. \<not> reservedFor oid c"
  proof (rule ccontr)
    assume "\<not> ?thesis"
    then have "\<exists>c\<in>set cs. reservedFor oid c" by simp
    with keys have "truthy (firstKey (snd (claimReserved (dbNow env) oid cs)))"
      unfolding claimReserved_def by (rule rows_truthy)
    with available(2) show False by simp
  qed
  then have cr: "claimReserved (dbNow env) oid cs = (cs, [])"
    by (simp add: claimReserved_def updateReturning_none)
  from some nores have "\<exists>c\<in>set cs. eligible (dbNow env) (productId ord) c"
    by (auto simp: claimable_def)
  with keys have "truthy (firstKey (snd (claimAvailable (dbNow env) (productId ord) cs)))"
    unfolding claimAvailable_def by (rule select_update_truthy)
  with available(3) cc cr show ?thesis by simp
qed

text \<open>The first statement reaches every unused card reserved for the order.\<close>

lemma claimCard_reserved_all:
  assumes cc: "claimCard env oid ord cs = Inr (ck, cs')"
    and ok: "reservedStmtError env = None"
    and n: "n < length cs" and r: "reservedFor oid (cs ! n)"
  shows "cs' ! n = markUsed (dbNow env) (cs ! n)"
proof -
  let ?cs1 = "fst (claimReserved (dbNow env) oid cs)"
  from n r have one: "?cs1 ! n = markUsed (dbNow env) (cs ! n)"
    by (simp add: claimReserved_def nth_updateReturning)
  from n have len: "n < length ?cs1" by (simp add: claimReserved_def length_updateReturning)
  show ?thesis
  proof (cases rule: claimCard_cases [of env oid ord cs])
    case (rethrow e)
    with ok show ?thesis by simp
  next
    case (legacy e)
    with ok show ?thesis by simp
  next
    case reserved
    with cc one show ?thesis by simp
  next
    case available
    with cc have "cs' = fst (claimAvailable (dbNow env) (productId ord) ?cs1)" by simp
    with len one show ?thesis
      by (simp add: claimAvailable_def nth_updateReturning)
  qed
qed

lemma claimCard_reserved_key:
  assumes cc: "claimCard env oid ord cs = Inr (ck, cs')"
    and ok: "reservedStmtError env = None"
    and rows: "map card_key (filter (reservedFor oid) cs) = k # ks" and k: "k \<noteq> []"
  shows "ck = Some k"
proof -
  from rows have fk: "firstKey (snd (claimReserved (dbNow env) oid cs)) = Some k"
    by (simp add: claimReserved_def updateReturning_def firstKey_def)
  with k have "truthy (firstKey (snd (claimReserved (dbNow env) oid cs)))"
    by (simp add: truthy_def)
  from claimCard_reserved [OF ok this, of ord] cc fk show ?thesis by simp
qed

lemma distinct_ids_nth:
  assumes d: "distinct (map card_id cs)" and i: "i < length cs" and j: "j < length cs"
    and eq: "card_id (cs ! i) = card_id (cs ! j)"
  shows "i = j"
proof -
  from i j eq have "map card_id cs ! i = map card_id cs ! j" by simp
  moreover from i j have "i < length (map card_id cs)" "j < length (map card_id cs)" by simp_all
  ultimately show ?thesis using d nth_eq_iff_index_eq by blast
qed

lemma claimReserved_ids:
  "map card_id (fst (claimReserved now oid cs)) = map card_id cs"
  by (simp add: claimReserved_def updateReturning_def)

text \<open>A card with a fresh reservation for another order is out of reach of both statements.\<close>

lemma claimCard_keeps_fresh:
  assumes cc: "claimCard env oid ord cs = Inr (ck, cs')"
    and ok: "reservedStmtError env = None"
    and d: "distinct (map card_id cs)"
    and n: "n < length cs"
    and other: "reserved_order_id (cs ! n) \<noteq> Some oid"
    and fresh: "reserved_at (cs ! n) = Some t" "dbNow env - 60000 \<le> t"
  shows "cs' ! n = cs ! n"
proof -
  let ?cs1 = "fst (claimReserved (dbNow env) oid cs)"
  from n other have one: "?cs1 ! n = cs ! n"
    by (simp add: claimReserved_def nth_updateReturning reservedFor_def)
  from n have len: "n < length ?cs1" by (simp add: claimReserved_def length_updateReturning)
  show ?thesis
  proof (cases rule: claimCard_cases [of env oid ord cs])
    case (rethrow e)
    with ok show ?thesis by simp
  next
    case (legacy e)
    with ok show ?thesis by simp
  next
    case reserved
    with cc one show ?thesis by simp
  next
    case available
    let ?sel = "selectFirstId (eligible (dbNow env) (productId ord)) ?cs1"
    from available cc have cs': "cs' = fst (updateReturning (hasId ?sel) (markUsed (dbNow env)) ?cs1)"
      by (simp add: claimAvailable_def)
    have "\<not> hasId ?sel (?cs1 ! n)"
    proof
      assume h: "hasId ?sel (?cs1 ! n)"
      then obtain i where sel: "?sel = Some i" and i: "card_id (?cs1 ! n) = i"
        by (cases ?sel) (auto simp: hasId_def)
      from selectFirstId_Some [OF sel] obtain m where m: "m < length ?cs1"
        "eligible (dbNow env) (productId ord) (?cs1 ! m)" "card_id (?cs1 ! m) = i"
        by (auto simp: in_set_conv_nth)
      have "distinct (map card_id ?cs1)" using d by (simp add: claimReserved_ids)
      from distinct_ids_nth [OF this m(1) len] m(3) i have "m = n" by simp
      with m(2) one fresh show False by (simp add: eligible_def)
    qed
    with cs' len one show ?thesis by (simp add: nth_updateReturning)
  qed
qed

text \<open>The first row that qualifies is the one selected.\<close>

lemma filter_first:
  assumes "n < length cs" "P (cs ! n)" "\<forall>m<n. \<not> P (cs ! m)"
  shows "\<exists>rest. filter P cs = cs ! n # rest"
  using assms
proof (induction cs arbitrary: n)
  case Nil
  then show ?case by simp
next
  case (Cons c cs)
  show ?case
  proof (cases n)
    case 0
    with Cons.prems show ?thesis by simp
  next
    case (Suc k)
    with Cons.prems have "\<not> P c" by auto
    moreover from Suc Cons.prems have "k < length cs" "P (cs ! k)" "\<forall>m<k. \<not> P (cs ! m)"
      by auto
    ultimately show ?thesis using Cons.IH [of k] Suc by auto
  qed
qed

lemma selectFirstId_first:
  assumes "n < length cs" "P (cs ! n)" "\<forall>m<n. \<not> P (cs ! m)"
  shows "selectFirstId P cs = Some (card_id (cs ! n))"
  using filter_first [OF assms] by (auto simp: selectFirstId_def)

lemma hasId_Some: "hasId (Some i) = (\<lambda>c. card_id c = i)"
  by (rule ext) (simp add: hasId_def)

lemma filter_by_id:
  assumes "distinct (map card_id cs)" "n < length cs"
  shows "filter (\<lambda>c. card_id c = card_id (cs ! n)) cs = [cs ! n]"
  using assms
proof (induction cs arbitrary: n)
  case Nil
  then show ?case by simp
next
  case (Cons c cs)
  from Cons.prems have notin: "card_id c \<notin> card_id ` set cs"
    and dc: "distinct (map card_id cs)" by simp_all
  show ?case
  proof (cases n)
    case 0
    from notin have "\<forall>x\<in>set cs. card_id x \<noteq> card_id c" by (metis image_eqI)
    then have "filter (\<lambda>a. card_id a = card_id c) cs = []"
      by (simp add: filter_empty_conv)
    with 0 show ?thesis by simp
  next
    case (Suc k)
    with Cons.prems have k: "k < length cs" by simp
    with notin have "card_id c \<noteq> card_id (cs ! k)" by (metis image_eqI nth_mem)
    with Cons.IH [OF dc k] Suc show ?thesis by simp
  qed
qed

lemma update_by_id:
  assumes d: "distinct (map card_id cs)" and n: "n < length cs"
  shows "updateReturning (hasId (Some (card_id (cs ! n)))) f cs = (cs[n := f (cs ! n)], [card_key (cs ! n)])"
proof -
  have same: "\<And>m. m < length cs \<Longrightarrow> card_id (cs ! m) = card_id (cs ! n) \<longleftrightarrow> m = n"
    using distinct_ids_nth [OF d] n by auto
  have "map (\<lambda>c. if card_id c = card_id (cs ! n) then f c else c) cs = cs[n := f (cs ! n)]"
    by (rule nth_equalityI) (auto simp: same nth_list_update)
  with filter_by_id [OF d n] show ?thesis by (simp add: updateReturning_def hasId_Some)
qed

lemma claimCard_takes_first_eligible:
  assumes ok: "reservedStmtError env = None"
    and d: "distinct (map card_id cs)"
    and nores: "\<forall>c\<in>set cs. \<not> reservedFor oid c"
    and n: "n < length cs"
    and el: "eligible (dbNow env) (productId ord) (cs ! n)"
    and first: "\<forall>m<n. \<not> eligible (dbNow env) (productId ord) (cs ! m)"
  shows "claimCard env oid ord cs =
           Inr (Some (card_key (cs ! n)), cs[n := markUsed (dbNow env) (cs ! n)])"
proof -
  from nores have cr: "claimReserved (dbNow env) oid cs = (cs, [])"
    by (simp add: claimReserved_def updateReturning_none)
  then have nt: "\<not> truthy (firstKey (snd (claimReserved (dbNow env) oid cs)))"
    by (simp add: firstKey_def truthy_def)
  have "claimAvailable (dbNow env) (productId ord) cs =
          (cs[n := markUsed (dbNow env) (cs ! n)], [card_key (cs ! n)])"
    by (simp add: claimAvailable_def selectFirstId_first [OF n el first] update_by_id [OF d n])
  with claimCard_available [OF ok nt, of ord] cr show ?thesis by (simp add: firstKey_def)
qed

subsection \<open>The branches of processOrderFulfillment\<close>

lemma fulfil_missing:
  "orders s oid = None \<Longrightarrow> processOrderFulfillment env s oid paid tn = (Inl OrderNotFound, s)"
  by (simp add: processOrderFulfillment_def)

lemma fulfil_settled:
  assumes "orders s oid = Some ord" "status ord \<noteq> Pending" "status ord \<noteq> Cancelled"
  shows "processOrderFulfillment env s oid paid tn =
           (if amountMismatch paid (amount ord) then Inl AmountMismatch else Inr Already_processed, s)"
  using assms by (simp add: processOrderFulfillment_def)

lemma fulfil_rejected:
  assumes "orders s oid = Some ord" "amountMismatch paid (amount ord)"
  shows "processOrderFulfillment env s oid paid tn = (Inl AmountMismatch, s)"
  using assms by (simp add: processOrderFulfillment_def)

lemma fulfil_rethrow:
  assumes "orders s oid = Some ord" "\<not> amountMismatch paid (amount ord)"
    "status ord = Pending \<or> status ord = Cancelled"
    "claimCard env oid ord (cards s) = Inl e"
  shows "processOrderFulfillment env s oid paid tn = (Inl (DbError e), s)"
  using assms by (auto simp add: processOrderFulfillment_def)

lemma fulfil_delivered:
  assumes "orders s oid = Some ord" "\<not> amountMismatch paid (amount ord)"
    "status ord = Pending \<or> status ord = Cancelled"
    "claimCard env oid ord (cards s) = Inr (ck, cs')" "truthy ck"
  shows "processOrderFulfillment env s oid paid tn =
           (Inr Processed,
            s\<lparr>cards := cs',
              orders := (orders s)(oid \<mapsto>
                ord\<lparr>status := Delivered, paidAt := Some (jsNow env),
                    deliveredAt := Some (jsNow2 env), tradeNo := Some tn, cardKey := ck\<rparr>)\<rparr>)"
  using assms by (auto simp add: processOrderFulfillment_def)

lemma fulfil_paid:
  assumes "orders s oid = Some ord" "\<not> amountMismatch paid (amount ord)"
    "status ord = Pending \<or> status ord = Cancelled"
    "claimCard env oid ord (cards s) = Inr (ck, cs')" "\<not> truthy ck"
  shows "processOrderFulfillment env s oid paid tn =
           (Inr Processed,
            s\<lparr>cards := cs',
              orders := (orders s)(oid \<mapsto>
                ord\<lparr>status := Paid, paidAt := Some (jsNow env), tradeNo := Some tn\<rparr>)\<rparr>)"
  using assms by (auto simp add: processOrderFulfillment_def)

text \<open>The cards after any call are the cards before or the cards that the claim returned.\<close>

lemma fulfil_cards:
  "cards (snd (processOrderFulfillment env s oid paid tn)) = cards s \<or>
   (\<exists>ord ck. orders s oid = Some ord \<and>
      claimCard env oid ord (cards s) = Inr (ck, cards (snd (processOrderFulfillment env s oid paid tn))))"
  by (auto simp add: processOrderFulfillment_def split: option.splits sum.splits)

subsection \<open>The branches of markOrderRefunded\<close>

lemma refund_unauthorized:
  "\<not> authorized env \<Longrightarrow> markOrderRefunded env s oid = (Inl Unauthorized, s)"
  by (simp add: markOrderRefunded_def)

lemma refund_missing:
  "authorized env \<Longrightarrow> orders s oid = None \<Longrightarrow> markOrderRefunded env s oid = (Inl OrderNotFound, s)"
  by (simp add: markOrderRefunded_def)

lemma refund_done:
  assumes "authorized env" "orders s oid = Some ord" "\<not> refundFails env ord"
  shows "markOrderRefunded env s oid =
           (Inr (),
            s\<lparr>loginUsers := refundPoints ord (loginUsers s),
              orders := (orders s)(oid \<mapsto> ord\<lparr>status := Refunded\<rparr>),
              cards := returned ord (cards s),
              refundRequests := markProcessed env oid (refundRequests s)\<rparr>)"
  using assms
  by (simp add: markOrderRefunded_def Let_def tryStatement_def commit_def returned_def
      refundFails_def truthy_def split: option.splits)

text \<open>A failing statement undoes the whole refund, and the caller is told of a success.\<close>

lemma refund_rolled_back:
  assumes "authorized env" "orders s oid = Some ord" "refundFails env ord"
  shows "markOrderRefunded env s oid = (Inr (), s)"
  using assms
  by (auto simp add: markOrderRefunded_def Let_def tryStatement_def commit_def
      refundFails_def truthy_def split: option.splits)

lemma refund_orders:
  "orders (snd (markOrderRefunded env s oid)) = orders s \<or>
   (\<exists>ord. orders s oid = Some ord \<and>
      orders (snd (markOrderRefunded env s oid)) = (orders s)(oid \<mapsto> ord\<lparr>status := Refunded\<rparr>))"
proof (cases "authorized env")
  case False
  then show ?thesis by (simp add: refund_unauthorized)
next
  case True
  show ?thesis
  proof (cases "orders s oid")
    case None
    with True show ?thesis by (simp add: refund_missing)
  next
    case (Some ord)
    show ?thesis
    proof (cases "refundFails env ord")
      case fails: True
      from refund_rolled_back [OF True Some fails] show ?thesis by simp
    next
      case ok: False
      from refund_done [OF True Some ok] Some show ?thesis by simp
    qed
  qed
qed

lemma refundPoints_credit:
  assumes "userId ord = Some uid" "uid \<noteq> []" "0 < pointsUsed ord" "users uid = Some b"
  shows "refundPoints ord users = users(uid \<mapsto> b + pointsUsed ord)"
  using assms by (simp add: refundPoints_def creditPoints_def)

lemma returned_length: "length (returned ord cs) = length cs"
  by (simp add: returned_def reclaimCards_def split: option.splits)

lemma returned_nth:
  assumes "cardKey ord = Some k" "k \<noteq> []" "n < length cs"
  shows "returned ord cs ! n =
           (if product_id (cs ! n) = productId ord \<and> card_key (cs ! n) = k
            then (cs ! n)\<lparr>is_used := Some False, used_at := None\<rparr> else cs ! n)"
  using assms by (simp add: returned_def reclaimCards_def returnCard_def)

lemma returned_no_row:
  assumes "\<forall>c\<in>set cs. \<not> (product_id c = productId ord \<and> Some (card_key c) = cardKey ord)"
  shows "returned ord cs = cs"
proof (cases "cardKey ord")
  case None
  then show ?thesis by (simp add: returned_def)
next
  case (Some k)
  with assms have "map (returnCard (productId ord) k) cs = cs"
    by (intro map_idI) (auto simp: returnCard_def)
  with Some show ?thesis by (simp add: returned_def reclaimCards_def)
qed

subsection \<open>Open orders and the invariant\<close>

lemma fulfil_open:
  assumes ord: "orders s oid = Some ord"
    and opn: "status ord = Pending \<or> status ord = Cancelled"
    and amt: "\<not> amountMismatch paid (amount ord)"
    and err: "reservedStmtError env = None"
  obtains ck cs' where "claimCard env oid ord (cards s) = Inr (ck, cs')"
    and "processOrderFulfillment env s oid paid tn =
           (Inr Processed,
            s\<lparr>cards := cs',
              orders := (orders s)(oid \<mapsto>
                (if truthy ck
                 then ord\<lparr>status := Delivered, paidAt := Some (jsNow env),
                          deliveredAt := Some (jsNow2 env), tradeNo := Some tn, cardKey := ck\<rparr>
                 else ord\<lparr>status := Paid, paidAt := Some (jsNow env), tradeNo := Some tn\<rparr>))\<rparr>)"
proof -
  from claimCard_total [OF err] obtain ck cs' where cc: "claimCard env oid ord (cards s) = Inr (ck, cs')"
    by blast
  show ?thesis
    using that [OF cc] fulfil_delivered [OF ord amt opn cc] fulfil_paid [OF ord amt opn cc]
    by (cases "truthy ck") simp_all
qed

text \<open>What a call does to the orders: nothing, or one of the two updates of an open order.\<close>

lemma fulfil_orders:
  "orders (snd (processOrderFulfillment env s oid paid tn)) = orders s \<or>
   (\<exists>ord ck. orders s oid = Some ord \<and> (status ord = Pending \<or> status ord = Cancelled) \<and>
      (truthy ck \<and>
       orders (snd (processOrderFulfillment env s oid paid tn)) =
         (orders s)(oid \<mapsto> ord\<lparr>status := Delivered, paidAt := Some (jsNow env),
                     deliveredAt := Some (jsNow2 env), tradeNo := Some tn, cardKey := ck\<rparr>)
       \<or>
       orders (snd (processOrderFulfillment env s oid paid tn)) =
         (orders s)(oid \<mapsto> ord\<lparr>status := Paid, paidAt := Some (jsNow env), tradeNo := Some tn\<rparr>)))"
  by (auto simp add: processOrderFulfillment_def split: option.splits sum.splits)

lemma fulfil_keeps_inv:
  assumes inv: "store_inv s"
  shows "store_inv (snd (processOrderFulfillment env s oid paid tn))"
proof -
  let ?s' = "snd (processOrderFulfillment env s oid paid tn)"
  from fulfil_orders [of env s oid paid tn]
  consider (same) "orders ?s' = orders s"
    | (delivered) ord ck where "orders s oid = Some ord" "truthy ck"
        "orders ?s' = (orders s)(oid \<mapsto> ord\<lparr>status := Delivered, paidAt := Some (jsNow env),
                     deliveredAt := Some (jsNow2 env), tradeNo := Some tn, cardKey := ck\<rparr>)"
    | (paid) ord where "orders s oid = Some ord" "status ord = Pending \<or> status ord = Cancelled"
        "orders ?s' = (orders s)(oid \<mapsto> ord\<lparr>status := Paid, paidAt := Some (jsNow env), tradeNo := Some tn\<rparr>)"
    by blast
  then show ?thesis
  proof cases
    case same
    with inv show ?thesis by (simp add: store_inv_def)
  next
    case delivered
    from delivered(2) have "ck \<noteq> None" by (cases ck) (auto simp: truthy_def)
    with inv delivered(3) show ?thesis
      by (auto simp: store_inv_def order_inv_def)
  next
    case paid
    from inv paid(1) have "order_inv ord" by (auto simp: store_inv_def)
    with paid(2) have "cardKey ord = None" by (auto simp: order_inv_def)
    with inv paid(3) show ?thesis
      by (auto simp: store_inv_def order_inv_def)
  qed
qed

lemma fulfil_open_status:
  assumes ord: "orders s oid = Some ord"
    and opn: "status ord = Pending \<or> status ord = Cancelled"
    and amt: "\<not> amountMismatch paid (amount ord)"
    and err: "reservedStmtError env = None"
  shows "\<exists>s' ord'. processOrderFulfillment env s oid paid tn = (Inr Processed, s')
      \<and> orders s' oid = Some ord' \<and> amount ord' = amount ord
      \<and> (status ord' = Delivered \<or> status ord' = Paid)
      \<and> ((\<forall>c\<in>set (cards s). card_key c \<noteq> []) \<and> (\<exists>c\<in>set (cards s). claimable env oid ord c)
            \<longrightarrow> status ord' = Delivered)"
proof -
  from fulfil_open [OF ord opn amt err, of tn] obtain ck cs'
    where cc: "claimCard env oid ord (cards s) = Inr (ck, cs')"
      and run: "processOrderFulfillment env s oid paid tn =
           (Inr Processed,
            s\<lparr>cards := cs',
              orders := (orders s)(oid \<mapsto>
                (if truthy ck
                 then ord\<lparr>status := Delivered, paidAt := Some (jsNow env),
                          deliveredAt := Some (jsNow2 env), tradeNo := Some tn, cardKey := ck\<rparr>
                 else ord\<lparr>status := Paid, paidAt := Some (jsNow env), tradeNo := Some tn\<rparr>))\<rparr>)"
    by blast
  have "(\<forall>c\<in>set (cards s). card_key c \<noteq> []) \<and> (\<exists>c\<in>set (cards s). claimable env oid ord c)
          \<longrightarrow> truthy ck"
    using claimCard_claims [OF cc] by blast
  with run show ?thesis by (cases "truthy ck") simp_all
qed

text \<open>What one call, and a run of calls, does to one order.\<close>

lemma fulfil_order_step:
  assumes ord: "orders s oid = Some ord"
  shows "\<exists>ord'. orders (snd (processOrderFulfillment env s orderId paid tn)) oid = Some ord'
      \<and> (order_inv ord \<longrightarrow> order_inv ord')
      \<and> (delivered_has_key ord \<longrightarrow> delivered_has_key ord')"
proof -
  let ?s' = "snd (processOrderFulfillment env s orderId paid tn)"
  from fulfil_orders [of env s orderId paid tn]
  consider (same) "orders ?s' = orders s"
    | (delivered) o1 ck where "orders s orderId = Some o1" "truthy ck"
        "orders ?s' = (orders s)(orderId \<mapsto> o1\<lparr>status := Delivered, paidAt := Some (jsNow env),
                     deliveredAt := Some (jsNow2 env), tradeNo := Some tn, cardKey := ck\<rparr>)"
    | (paid) o1 where "orders s orderId = Some o1" "status o1 = Pending \<or> status o1 = Cancelled"
        "orders ?s' = (orders s)(orderId \<mapsto> o1\<lparr>status := Paid, paidAt := Some (jsNow env), tradeNo := Some tn\<rparr>)"
    by blast
  then show ?thesis
  proof cases
    case same
    with ord show ?thesis by simp
  next
    case delivered
    from delivered(2) have "ck \<noteq> None" by (cases ck) (auto simp: truthy_def)
    with ord delivered(3) show ?thesis
      by (cases "oid = orderId") (simp_all add: order_inv_def delivered_has_key_def)
  next
    case paid
    with ord show ?thesis
      by (cases "oid = orderId") (auto simp: order_inv_def delivered_has_key_def)
  qed
qed

lemma refund_order_step:
  assumes ord: "orders s oid = Some ord"
  shows "\<exists>ord'. orders (snd (markOrderRefunded renv s orderId)) oid = Some ord'
      \<and> cardKey ord' = cardKey ord
      \<and> (ord' = ord \<or> oid = orderId \<and> ord' = ord\<lparr>status := Refunded\<rparr>)"
  using refund_orders [of renv s orderId] ord
  by (cases "oid = orderId") auto

lemma operation_order_step:
  assumes ord: "orders s oid = Some ord"
  shows "\<exists>ord'. orders (apply_operation step s) oid = Some ord'
      \<and> (delivered_has_key ord \<longrightarrow> delivered_has_key ord')
      \<and> (order_inv ord \<and> oid \<notin> set (compensated [step]) \<longrightarrow> order_inv ord')"
proof (cases step)
  case (Fulfil env orderId paid tn)
  with fulfil_order_step [OF ord, of env orderId paid tn] show ?thesis by auto
next
  case (Compensate renv orderId)
  from refund_order_step [OF ord, of renv orderId] obtain ord'
    where o: "orders (snd (markOrderRefunded renv s orderId)) oid = Some ord'"
      "cardKey ord' = cardKey ord" "ord' = ord \<or> oid = orderId \<and> ord' = ord\<lparr>status := Refunded\<rparr>"
    by blast
  from o(3) have "delivered_has_key ord \<longrightarrow> delivered_has_key ord'"
    by (auto simp: delivered_has_key_def)
  moreover from o(3) have "order_inv ord \<and> oid \<noteq> orderId \<longrightarrow> order_inv ord'" by auto
  ultimately show ?thesis using o(1) Compensate by simp
qed

lemma compensated_Cons: "set (compensated (step # steps)) = set (compensated [step]) \<union> set (compensated steps)"
  by (cases step) simp_all

lemma run_order:
  assumes "orders s oid = Some ord"
  shows "\<exists>ord'. orders (run s steps) oid = Some ord'
      \<and> (delivered_has_key ord \<longrightarrow> delivered_has_key ord')
      \<and> (order_inv ord \<and> oid \<notin> set (compensated steps) \<longrightarrow> order_inv ord')"
  using assms
proof (induction steps arbitrary: s ord)
  case Nil
  then show ?case by simp
next
  case (Cons step steps)
  from operation_order_step [OF Cons.prems, of step] obtain o1
    where o1: "orders (apply_operation step s) oid = Some o1"
      "delivered_has_key ord \<longrightarrow> delivered_has_key o1"
      "order_inv ord \<and> oid \<notin> set (compensated [step]) \<longrightarrow> order_inv o1"
    by blast
  from Cons.IH [OF o1(1)] obtain ord'
    where o2: "orders (run (apply_operation step s) steps) oid = Some ord'"
      "delivered_has_key o1 \<longrightarrow> delivered_has_key ord'"
      "order_inv o1 \<and> oid \<notin> set (compensated steps) \<longrightarrow> order_inv ord'"
    by blast
  from o1 o2 compensated_Cons [of step steps] show ?case by auto
qed

lemma fulfil_never_mismatch:
  assumes "orders s oid = Some ord" "\<not> amountMismatch paid (amount ord)"
  shows "fst (processOrderFulfillment env s oid paid tn) \<noteq> Inl AmountMismatch"
  using assms by (auto simp add: processOrderFulfillment_def split: sum.splits)

subsection \<open>The samples\<close>

lemma ex_authorized: "authorized ex_refund_env"
  by (simp add: authorized_def adminUsers_def ex_refund_env_def ex_toLowerCase_def char_of_eq_iff)

lemma ex_authorized_no_table: "authorized ex_refund_env_no_table"
  by (simp add: authorized_def adminUsers_def ex_refund_env_no_table_def ex_refund_env_def
      ex_toLowerCase_def char_of_eq_iff)

lemma ex_authorized_card_fails: "authorized ex_refund_env_card_fails"
  by (simp add: authorized_def adminUsers_def ex_refund_env_card_fails_def ex_refund_env_def
      ex_toLowerCase_def char_of_eq_iff)

lemma ex_fulfil:
  "processOrderFulfillment ex_env ex_store ''O'' (Fin 10) ''T1'' = (Inr Processed, ex_store_delivered)"
  by (simp add: processOrderFulfillment_def ex_store_def ex_order_def pays_10_for_9_99
      claimCard_def execute_def ex_env_def claimReserved_def claimAvailable_def updateReturning_def
      reservedFor_def ex_card_def firstKey_def truthy_def selectFirstId_def eligible_def
      unused_def hasId_def ex_store_delivered_def ex_delivered_def)

lemma ex_no_error: "reservedStmtError ex_env = None"
  by (simp add: ex_env_def)

lemma ex_claimable: "claimable ex_env ''O'' ex_order ex_card"
  by (simp add: claimable_def eligible_def ex_order_def ex_card_def unused_def)

lemma ex_store_inv: "store_inv ex_store"
  by (auto simp: store_inv_def order_inv_def ex_store_def ex_order_def split: if_splits)

lemma ex_store_delivered_inv: "store_inv ex_store_delivered"
  by (auto simp: store_inv_def order_inv_def ex_store_delivered_def ex_delivered_def split: if_splits)

lemma ex_undefined_column: "isUndefinedColumn ex_error_42703 \<and> \<not> isUndefinedColumn ex_error_other"
  by (simp add: isUndefinedColumn_def ex_error_42703_def ex_error_other_def)

text \<open>
  On a schema without the reservation columns the call ends with the error of the
  aborted transaction and the store is as before, although the table holds unused
  cards of the product; an error of another kind comes back to the caller as it is.
\<close>

lemma ex_legacy_fulfil:
  "processOrderFulfillment ex_env_legacy ex_store_reserved ''Y'' (Fin 10) ''T1''
     = (Inl (DbError inFailedTransaction), ex_store_reserved)"
proof -
  have e: "reservedStmtError ex_env_legacy = Some ex_error_42703" by (simp add: ex_env_legacy_def)
  have u: "isUndefinedColumn ex_error_42703" by (simp add: ex_undefined_column)
  have h: "orders ex_store_reserved ''Y'' = Some ex_order"
    "\<not> amountMismatch (Fin 10) (amount ex_order)"
    "status ex_order = Pending \<or> status ex_order = Cancelled"
    by (simp_all add: ex_store_reserved_def ex_order_def pays_10_for_9_99)
  from fulfil_rethrow [OF h claimCard_aborted [OF e u]] show ?thesis .
qed

lemma ex_rethrow:
  "processOrderFulfillment (ex_env\<lparr>reservedStmtError := Some ex_error_other\<rparr>) ex_store ''O'' (Fin 10) ''T1''
     = (Inl (DbError ex_error_other), ex_store)"
proof -
  have h: "orders ex_store ''O'' = Some ex_order"
    "\<not> amountMismatch (Fin 10) (amount ex_order)"
    "status ex_order = Pending \<or> status ex_order = Cancelled"
    by (simp_all add: ex_store_def ex_order_def pays_10_for_9_99)
  have "claimCard (ex_env\<lparr>reservedStmtError := Some ex_error_other\<rparr>) ''O'' ex_order (cards ex_store)
          = Inl ex_error_other"
    by (rule claimCard_rethrow) (simp_all add: ex_undefined_column)
  from fulfil_rethrow [OF h this] show ?thesis .
qed

lemma ex_blank_fulfil:
  "processOrderFulfillment ex_env ex_store_blank ''O'' (Fin 10) ''T1''
     = (Inr Processed,
        ex_store_blank\<lparr>cards := [ex_blank\<lparr>is_used := Some True, used_at := Some 1000000\<rparr>],
          orders := [''O'' \<mapsto> ex_order\<lparr>status := Paid, paidAt := Some 1000000,
                                       tradeNo := Some ''T1''\<rparr>]\<rparr>)"
  by (simp add: processOrderFulfillment_def ex_store_blank_def ex_store_def ex_order_def
      pays_10_for_9_99 claimCard_def execute_def ex_env_def claimReserved_def claimAvailable_def
      updateReturning_def reservedFor_def ex_blank_def firstKey_def truthy_def selectFirstId_def
      eligible_def unused_def hasId_def markUsed_def)

lemma ex_big_fulfil:
  "processOrderFulfillment ex_env ex_store_big ''O'' (Fin (1125899907849257 / 33554432)) ''T1''
     = (Inr Processed,
        ex_store_big\<lparr>cards := [markUsed 1000000 ex_card],
          orders := [''O'' \<mapsto> ex_order_big\<lparr>status := Delivered, paidAt := Some 1000000,
             deliveredAt := Some 1000001, tradeNo := Some ''T1'', cardKey := Some ''K1''\<rparr>]\<rparr>)"
proof -
  have amt: "amount ex_order_big = 3355443202 / 100" by (simp add: ex_order_big_def)
  have h: "orders ex_store_big ''O'' = Some ex_order_big"
    "status ex_order_big = Pending \<or> status ex_order_big = Cancelled"
    by (simp_all add: ex_store_big_def ex_order_big_def ex_order_def)
  have h2: "\<not> amountMismatch (Fin (1125899907849257 / 33554432)) (amount ex_order_big)"
    unfolding amt by (rule pays_33554432_03_for_33554432_02)
  have c: "claimCard ex_env ''O'' ex_order_big (cards ex_store_big)
             = Inr (Some ''K1'', [markUsed 1000000 ex_card])"
    by (simp add: claimCard_def execute_def ex_env_def claimReserved_def claimAvailable_def
        updateReturning_def reservedFor_def ex_card_def firstKey_def truthy_def selectFirstId_def
        eligible_def unused_def hasId_def ex_store_big_def ex_store_def ex_order_big_def ex_order_def)
  have t: "truthy (Some ''K1'')" by (simp add: truthy_def)
  from fulfil_delivered [OF h(1) h2 h(2) c t, of "''T1''"] show ?thesis
    by (simp add: ex_env_def ex_store_big_def)
qed

lemma ex_run:
  "run ex_store ex_operations =
     ex_store_delivered\<lparr>loginUsers := [''u1'' \<mapsto> 15],
       orders := [''O'' \<mapsto> ex_delivered\<lparr>status := Refunded\<rparr>],
       cards := [ex_card\<lparr>is_used := Some False, used_at := None\<rparr>]\<rparr>"
proof -
  have h1: "orders ex_store_delivered ''O'' = Some ex_delivered" by (simp add: ex_store_delivered_def)
  have nf: "\<not> refundFails ex_refund_env ex_delivered" by (simp add: refundFails_def ex_refund_env_def)
  let ?s2 = "ex_store_delivered\<lparr>loginUsers := [''u1'' \<mapsto> 15],
       orders := [''O'' \<mapsto> ex_delivered\<lparr>status := Refunded\<rparr>],
       cards := [ex_card\<lparr>is_used := Some False, used_at := None\<rparr>]\<rparr>"
  have r: "markOrderRefunded ex_refund_env ex_store_delivered ''O'' = (Inr (), ?s2)"
    unfolding refund_done [OF ex_authorized h1 nf]
    by (simp add: ex_store_delivered_def ex_delivered_def ex_order_def refundPoints_def
        creditPoints_def returned_def reclaimCards_def returnCard_def markUsed_def ex_card_def
        markProcessed_def)
  have h2: "orders ?s2 ''O'' = Some (ex_delivered\<lparr>status := Refunded\<rparr>)" by simp
  have f: "processOrderFulfillment ex_env ?s2 ''O'' (Fin 10) ''T2'' = (Inr Already_processed, ?s2)"
    using fulfil_settled [OF h2, of ex_env "Fin 10" "''T2''"]
    by (simp add: ex_delivered_def ex_order_def pays_10_for_9_99)
  show ?thesis by (simp add: ex_operations_def ex_fulfil r f)
qed

subsection \<open>Calls one after another\<close>

lemma tidy_eligible:
  assumes "tidy cs" "c \<in> set cs"
  shows "eligible now p c = eligibleLegacy p c" "\<not> reservedFor oid c"
  using assms by (auto simp: tidy_def eligible_def eligibleLegacy_def reservedFor_def)

text \<open>On a tidy table a call takes the first unused card of the product, if there is one.\<close>

lemma claimCard_tidy:
  assumes t: "tidy cs" and err: "reservedStmtError env = None"
  shows "filter (eligibleLegacy (productId ord)) cs = [] \<longrightarrow> claimCard env oid ord cs = Inr (None, cs)"
    and "\<forall>us c vs. cs = us @ c # vs \<and> (\<forall>u\<in>set us. \<not> eligibleLegacy (productId ord) u)
            \<and> eligibleLegacy (productId ord) c \<longrightarrow>
          (\<exists>c'. claimCard env oid ord cs = Inr (Some (card_key c), us @ c' # vs)
                \<and> \<not> unused c' \<and> card_id c' = card_id c \<and> card_key c' = card_key c
                \<and> reserved_order_id c' = None \<and> reserved_at c' = None)"
proof -
  show "filter (eligibleLegacy (productId ord)) cs = [] \<longrightarrow> claimCard env oid ord cs = Inr (None, cs)"
  proof
    assume "filter (eligibleLegacy (productId ord)) cs = []"
    then have none: "\<forall>c\<in>set cs. \<not> eligibleLegacy (productId ord) c"
      by (simp add: filter_empty_conv)
    with t have "\<forall>c\<in>set cs. \<not> claimable env oid ord c"
      by (auto simp: claimable_def tidy_eligible)
    moreover from claimCard_total [OF err] obtain ck cs'
      where cc: "claimCard env oid ord cs = Inr (ck, cs')" by blast
    ultimately show "claimCard env oid ord cs = Inr (None, cs)"
      using claimCard_nothing [OF cc] by simp
  qed
next
  show "\<forall>us c vs. cs = us @ c # vs \<and> (\<forall>u\<in>set us. \<not> eligibleLegacy (productId ord) u)
            \<and> eligibleLegacy (productId ord) c \<longrightarrow>
          (\<exists>c'. claimCard env oid ord cs = Inr (Some (card_key c), us @ c' # vs)
                \<and> \<not> unused c' \<and> card_id c' = card_id c \<and> card_key c' = card_key c
                \<and> reserved_order_id c' = None \<and> reserved_at c' = None)"
  proof (intro allI impI)
    fix us c vs
    assume h: "cs = us @ c # vs \<and> (\<forall>u\<in>set us. \<not> eligibleLegacy (productId ord) u)
            \<and> eligibleLegacy (productId ord) c"
    let ?n = "length us"
    from h have n: "?n < length cs" and cn: "cs ! ?n = c" by simp_all
    from h have first: "\<forall>m<?n. \<not> eligibleLegacy (productId ord) (cs ! m)"
      by (simp add: nth_append)
    from h cn have el: "eligibleLegacy (productId ord) (cs ! ?n)" by simp
    from t have d: "distinct (map card_id cs)" by (simp add: tidy_def)
    from h have upd: "\<And>c'. cs[?n := c'] = us @ c' # vs" by simp
    from t h have res: "reserved_order_id c = None" "reserved_at c = None" by (simp_all add: tidy_def)
    show "\<exists>c'. claimCard env oid ord cs = Inr (Some (card_key c), us @ c' # vs)
                \<and> \<not> unused c' \<and> card_id c' = card_id c \<and> card_key c' = card_key c
                \<and> reserved_order_id c' = None \<and> reserved_at c' = None"
    proof -
      from t have nores: "\<forall>c\<in>set cs. \<not> reservedFor oid c" by (simp add: tidy_eligible)
      from t n el have el': "eligible (dbNow env) (productId ord) (cs ! ?n)"
        by (simp add: tidy_eligible)
      from t n first have first': "\<forall>m<?n. \<not> eligible (dbNow env) (productId ord) (cs ! m)"
        by (simp add: tidy_eligible)
      from claimCard_takes_first_eligible [OF err d nores n el' first'] cn upd
      show ?thesis by (intro exI [of _ "markUsed (dbNow env) c"]) (simp add: markUsed_def unused_def)
    qed
  qed
qed

lemma callOrder_tuple: "callOrder (env, oid, paid, tn) = oid"
  by (simp add: callOrder_def)

lemma ready_same_order:
  "orders s' (callOrder call) = orders s (callOrder call) \<Longrightarrow> ready s' p call = ready s p call"
  by (cases call) (simp add: ready_def callOrder_def)

lemma fulfil_other_order:
  assumes "oid' \<noteq> oid"
  shows "orders (snd (processOrderFulfillment env s oid paid tn)) oid' = orders s oid'"
  using fulfil_orders [of env s oid paid tn] assms by auto

lemma fulfil_tidy_step:
  assumes t: "tidy (cards s)" and r: "ready s p (env, oid, paid, tn)"
  shows "\<exists>ord. orders s oid = Some ord
      \<and> orders (snd (processOrderFulfillment env s oid paid tn)) oid
          = Some (settled (filter (eligibleLegacy p) (cards s)) 0 (env, oid, paid, tn) ord)
      \<and> tidy (cards (snd (processOrderFulfillment env s oid paid tn)))
      \<and> filter (eligibleLegacy p) (cards (snd (processOrderFulfillment env s oid paid tn)))
          = tl (filter (eligibleLegacy p) (cards s))"
proof -
  from r obtain ord where ord: "orders s oid = Some ord"
    and opn: "status ord = Pending \<or> status ord = Cancelled"
    and p: "productId ord = p"
    and amt: "\<not> amountMismatch paid (amount ord)"
    and err: "reservedStmtError env = None"
    by (auto simp: ready_def split: option.splits)
  let ?A = "filter (eligibleLegacy p) (cards s)"
  let ?s' = "snd (processOrderFulfillment env s oid paid tn)"
  show ?thesis
  proof (cases ?A)
    case Nil
    with claimCard_tidy(1) [OF t err, of ord oid] p
    have cc: "claimCard env oid ord (cards s) = Inr (None, cards s)" by simp
    have "\<not> truthy None" by (simp add: truthy_def)
    from fulfil_paid [OF ord amt opn cc this, of tn] Nil t ord
    show ?thesis by (simp add: settled_def)
  next
    case (Cons c A')
    then obtain us vs where split: "cards s = us @ c # vs"
      "\<forall>u\<in>set us. \<not> eligibleLegacy p u" "eligibleLegacy p c" "A' = filter (eligibleLegacy p) vs"
      by (auto simp: filter_eq_Cons_iff)
    with claimCard_tidy(2) [OF t err, of ord oid] p obtain c'
      where cc: "claimCard env oid ord (cards s) = Inr (Some (card_key c), us @ c' # vs)"
        and c': "\<not> unused c'" "card_id c' = card_id c" "card_key c' = card_key c"
          "reserved_order_id c' = None" "reserved_at c' = None"
      by blast
    from t split(1) have "card_key c \<noteq> []" by (simp add: tidy_def)
    then have tr: "truthy (Some (card_key c))" by (simp add: truthy_def)
    from t split(1) c' have t': "tidy (us @ c' # vs)" by (simp add: tidy_def)
    from split c'(1) have "filter (eligibleLegacy p) (us @ c' # vs) = A'"
      by (simp add: eligibleLegacy_def)
    with fulfil_delivered [OF ord amt opn cc tr, of tn] Cons t' ord
    show ?thesis by (simp add: settled_def)
  qed
qed

lemma fulfilAll_other_order:
  assumes "oid \<notin> set (map callOrder calls)"
  shows "orders (fulfilAll s calls) oid = orders s oid"
  using assms
proof (induction calls arbitrary: s)
  case Nil
  then show ?case by simp
next
  case (Cons call calls)
  obtain env oid' paid tn where call: "call = (env, oid', paid, tn)" by (cases call) auto
  with Cons.prems have "oid \<noteq> oid'" "oid \<notin> set (map callOrder calls)"
    by (auto simp: callOrder_tuple)
  with Cons.IH [of "snd (processOrderFulfillment env s oid' paid tn)"] call
  show ?case by (simp add: fulfil_other_order)
qed

lemma settled_tl: "settled (tl A) i call ord = settled A (Suc i) call ord"
proof (cases A)
  case Nil
  then show ?thesis by (simp add: settled_def split: prod.splits)
next
  case (Cons a A')
  then show ?thesis by (simp add: settled_def split: prod.splits)
qed

lemma fulfilAll_tidy:
  assumes "tidy (cards s)" "distinct (map callOrder calls)" "\<forall>call\<in>set calls. ready s p call"
    "i < length calls"
  shows "\<exists>ord. orders s (callOrder (calls ! i)) = Some ord
      \<and> orders (fulfilAll s calls) (callOrder (calls ! i))
          = Some (settled (filter (eligibleLegacy p) (cards s)) i (calls ! i) ord)"
  using assms
proof (induction calls arbitrary: s i)
  case Nil
  then show ?case by simp
next
  case (Cons call calls)
  obtain env oid paid tn where call: "call = (env, oid, paid, tn)" by (cases call) auto
  let ?s1 = "snd (processOrderFulfillment env s oid paid tn)"
  let ?A = "filter (eligibleLegacy p) (cards s)"
  from Cons.prems(3) call have r: "ready s p (env, oid, paid, tn)" by simp
  from fulfil_tidy_step [OF Cons.prems(1) r] obtain ord
    where ord: "orders s oid = Some ord"
      and after: "orders ?s1 oid = Some (settled ?A 0 (env, oid, paid, tn) ord)"
      and t1: "tidy (cards ?s1)"
      and A1: "filter (eligibleLegacy p) (cards ?s1) = tl ?A"
    by blast
  from Cons.prems(2) call have notin: "oid \<notin> set (map callOrder calls)"
    and d: "distinct (map callOrder calls)" by (simp_all add: callOrder_tuple)
  have same: "orders ?s1 oid' = orders s oid'" if "oid' \<in> set (map callOrder calls)" for oid'
    using that notin by (intro fulfil_other_order) auto
  have r1: "\<forall>call'\<in>set calls. ready ?s1 p call'"
  proof
    fix call' assume in_calls: "call' \<in> set calls"
    then have "callOrder call' \<in> set (map callOrder calls)" by simp
    from same [OF this] have "ready ?s1 p call' = ready s p call'" by (rule ready_same_order)
    with Cons.prems(3) in_calls show "ready ?s1 p call'" by simp
  qed
  show ?case
  proof (cases i)
    case 0
    from fulfilAll_other_order [OF notin, of ?s1] after ord call 0
    show ?thesis by (simp add: callOrder_tuple)
  next
    case (Suc j)
    with Cons.prems(4) have j: "j < length calls" by simp
    then have "callOrder (calls ! j) \<in> set (map callOrder calls)" by simp
    from Cons.IH [OF t1 d r1 j] same [OF this] A1 call Suc
    show ?thesis by (simp add: settled_tl)
  qed
qed

lemma ex_three_tidy: "tidy (cards ex_store_three)"
  by (simp add: tidy_def ex_store_three_def ex_card_def ex_card2_def)

lemma ex_three_ready: "\<forall>call\<in>set ex_calls. ready ex_store_three ''P'' call"
  by (simp add: ex_calls_def ready_def ex_store_three_def ex_no_error ex_order_def
      pays_10_for_9_99)

section \<open>The claims\<close>

subsection \<open>C1: an open order is delivered or marked paid, once\<close>

text \<open>
  C1, as the code has it. Take an order in status pending or cancelled, a finite paid
  amount \<open>p\<close> that the test of line 18 lets through, which is when the exact difference
  between \<open>p\<close> and the double \<open>a'\<close> that \<open>parseFloat\<close> makes of the order's amount is below
  \<open>mismatchThreshold\<close>, and a first statement that does not fail. Then a call returns
  \<open>Processed\<close> and leaves the order in exactly one of two shapes: delivered, with
  \<open>paidAt\<close>, \<open>deliveredAt\<close> and \<open>tradeNo\<close> set, a non-empty card key taken from the card
  table, and a card turned from unused to used; or paid, with \<open>paidAt\<close> and \<open>tradeNo\<close>
  set and \<open>cardKey\<close> and \<open>deliveredAt\<close> left as they were. With no card within reach the
  order ends paid and no card changes; with a card within reach, and no empty key in
  the table, it ends delivered. A second call with the same arguments, at any clock and
  whatever its first statement does, returns \<open>Already_processed\<close> and changes nothing.
\<close>

theorem C1_fulfil_transition:
  assumes ord: "orders s oid = Some ord"
    and opn: "status ord = Pending \<or> status ord = Cancelled"
    and fin: "parseFloat (amount ord) = Fin a'"
    and near: "\<bar>p - a'\<bar> < mismatchThreshold"
    and err: "reservedStmtError env = None"
  shows "\<exists>s' ord'.
      processOrderFulfillment env s oid (Fin p) tn = (Inr Processed, s')
      \<and> orders s' oid = Some ord'
      \<and> paidAt ord' = Some (jsNow env) \<and> tradeNo ord' = Some tn
      \<and> ((status ord' = Delivered \<and> deliveredAt ord' = Some (jsNow2 env)
            \<and> (\<exists>k. cardKey ord' = Some k \<and> k \<noteq> [] \<and> k \<in> card_key ` set (cards s))
            \<and> (\<exists>n<length (cards s). unused (cards s ! n) \<and> \<not> unused (cards s' ! n)))
          \<or> (status ord' = Paid \<and> cardKey ord' = cardKey ord \<and> deliveredAt ord' = deliveredAt ord))
      \<and> ((\<forall>c\<in>set (cards s). \<not> claimable env oid ord c) \<longrightarrow> status ord' = Paid \<and> cards s' = cards s)
      \<and> ((\<forall>c\<in>set (cards s). card_key c \<noteq> []) \<and> (\<exists>c\<in>set (cards s). claimable env oid ord c)
            \<longrightarrow> status ord' = Delivered)
      \<and> (\<forall>env'. processOrderFulfillment env' s' oid (Fin p) tn = (Inr Already_processed, s'))"
proof -
  from near have amt: "\<not> amountMismatch (Fin p) (amount ord)"
    by (simp add: amountMismatch_iff [OF fin])
  from claimCard_total [OF err] obtain ck cs' where cc: "claimCard env oid ord (cards s) = Inr (ck, cs')"
    by blast
  show ?thesis
  proof (cases "truthy ck")
    case True
    let ?ord' = "ord\<lparr>status := Delivered, paidAt := Some (jsNow env),
                    deliveredAt := Some (jsNow2 env), tradeNo := Some tn, cardKey := ck\<rparr>"
    let ?s' = "s\<lparr>cards := cs', orders := (orders s)(oid \<mapsto> ?ord')\<rparr>"
    have run: "processOrderFulfillment env s oid (Fin p) tn = (Inr Processed, ?s')"
      by (rule fulfil_delivered [OF ord amt opn cc True])
    from True obtain k where k: "ck = Some k" "k \<noteq> []"
      by (auto simp: truthy_def split: option.splits)
    from cc k have intab: "k \<in> card_key ` set (cards s)"
      by (simp add: claimCard_key_in_table)
    from claimCard_flips [OF cc True]
    have flip: "\<exists>n<length (cards s). unused (cards s ! n) \<and> \<not> unused (cards ?s' ! n)" by simp
    have none: "(\<forall>c\<in>set (cards s). \<not> claimable env oid ord c) \<longrightarrow> False"
      using claimCard_nothing [OF cc] k by blast
    have again: "\<forall>env'. processOrderFulfillment env' ?s' oid (Fin p) tn = (Inr Already_processed, ?s')"
      using amt by (simp add: fulfil_settled [of ?s' oid ?ord'])
    show ?thesis
      apply (rule exI [of _ ?s'], rule exI [of _ ?ord'])
      using run k intab flip none again by simp
  next
    case False
    let ?ord' = "ord\<lparr>status := Paid, paidAt := Some (jsNow env), tradeNo := Some tn\<rparr>"
    let ?s' = "s\<lparr>cards := cs', orders := (orders s)(oid \<mapsto> ?ord')\<rparr>"
    have run: "processOrderFulfillment env s oid (Fin p) tn = (Inr Processed, ?s')"
      by (rule fulfil_paid [OF ord amt opn cc False])
    have none: "(\<forall>c\<in>set (cards s). \<not> claimable env oid ord c) \<longrightarrow> cs' = cards s"
      using claimCard_nothing [OF cc] by simp
    have some: "(\<forall>c\<in>set (cards s). card_key c \<noteq> []) \<and> (\<exists>c\<in>set (cards s). claimable env oid ord c)
            \<longrightarrow> False"
      using claimCard_claims [OF cc] False by blast
    have again: "\<forall>env'. processOrderFulfillment env' ?s' oid (Fin p) tn = (Inr Already_processed, ?s')"
      using amt by (simp add: fulfil_settled [of ?s' oid ?ord'])
    show ?thesis
      apply (rule exI [of _ ?s'], rule exI [of _ ?ord'])
      using run none some again by simp
  qed
qed

theorem C1_witness:
  "\<exists>s'. processOrderFulfillment ex_env ex_store ''O'' (Fin 10) ''T1'' = (Inr Processed, s')
     \<and> map_option status (orders s' ''O'') = Some Delivered
     \<and> map_option cardKey (orders s' ''O'') = Some (Some ''K1'')
     \<and> processOrderFulfillment ex_env s' ''O'' (Fin 10) ''T1'' = (Inr Already_processed, s')"
proof -
  have h1: "orders ex_store ''O'' = Some ex_order" by (simp add: ex_store_def)
  have h2: "status ex_order = Pending \<or> status ex_order = Cancelled" by (simp add: ex_order_def)
  have h3: "parseFloat (amount ex_order) = Fin (5623870034678907 / 562949953421312)"
    by (simp add: ex_order_def parseFloat_def double_9_99)
  have h4: "\<bar>10 - 5623870034678907 / 562949953421312\<bar> < mismatchThreshold"
    by (simp add: mismatchThreshold_def)
  have keys: "\<forall>c\<in>set (cards ex_store). card_key c \<noteq> []" by (simp add: ex_store_def ex_card_def)
  have some: "\<exists>c\<in>set (cards ex_store). claimable ex_env ''O'' ex_order c"
    by (simp add: ex_store_def ex_claimable)
  have only: "card_key ` set (cards ex_store) = {''K1''}" by (simp add: ex_store_def ex_card_def)
  from C1_fulfil_transition [OF h1 h2 h3 h4 ex_no_error, of "''T1''"] keys some only
  show ?thesis by fastforce
qed

text \<open>
  The claim as stated fails twice. A paid amount of 0.25 is within 0.01 of an order's
  amount of 0.24, and the call is refused: the double nearest to 0.24 lies below it,
  and the difference of the doubles rounds to a double above the double 0.01. And with
  an unused card of the product whose key is the empty string, the call marks the
  card used and leaves the order paid, without a key.
\<close>

theorem C1_counterexample:
  "orders ex_store_24 ''O'' = Some ex_order_24 \<and> status ex_order_24 = Pending
   \<and> \<bar>1 / 4 - amount ex_order_24\<bar> \<le> 1 / 100
   \<and> processOrderFulfillment ex_env ex_store_24 ''O'' (Fin (1 / 4)) ''T1''
       = (Inl AmountMismatch, ex_store_24)
   \<and> orders ex_store_blank ''O'' = Some ex_order \<and> status ex_order = Pending
   \<and> cards ex_store_blank = [ex_blank] \<and> eligible (dbNow ex_env) (productId ex_order) ex_blank
   \<and> processOrderFulfillment ex_env ex_store_blank ''O'' (Fin 10) ''T1''
       = (Inr Processed,
          ex_store_blank\<lparr>cards := [ex_blank\<lparr>is_used := Some True, used_at := Some 1000000\<rparr>],
            orders := [''O'' \<mapsto> ex_order\<lparr>status := Paid, paidAt := Some 1000000,
                                         tradeNo := Some ''T1''\<rparr>]\<rparr>)"
proof -
  have h1: "orders ex_store_24 ''O'' = Some ex_order_24" by (simp add: ex_store_24_def)
  have amt: "amount ex_order_24 = 24 / 100" by (simp add: ex_order_24_def)
  have h2: "amountMismatch (Fin (1 / 4)) (amount ex_order_24)"
    unfolding amt by (rule pays_0_25_for_0_24)
  have a: "processOrderFulfillment ex_env ex_store_24 ''O'' (Fin (1 / 4)) ''T1''
             = (Inl AmountMismatch, ex_store_24)"
    by (rule fulfil_rejected [OF h1 h2])
  have b: "status ex_order_24 = Pending" "\<bar>1 / 4 - amount ex_order_24\<bar> \<le> 1 / 100"
    by (simp_all add: ex_order_24_def ex_order_def)
  have c: "orders ex_store_blank ''O'' = Some ex_order" "status ex_order = Pending"
    "cards ex_store_blank = [ex_blank]" "eligible (dbNow ex_env) (productId ex_order) ex_blank"
    by (simp_all add: ex_store_blank_def ex_store_def ex_order_def eligible_def ex_blank_def unused_def)
  from h1 a b c ex_blank_fulfil show ?thesis by (simp only: simp_thms)
qed

subsection \<open>C2: the card key invariant\<close>

text \<open>
  C2, as the code has it. The invariant "a card key is held exactly by the delivered
  orders" is kept order by order: in the store that any run of \<open>processOrderFulfillment\<close>
  and \<open>markOrderRefunded\<close> calls leaves, an order that satisfied it at the start and that
  no refund of the run names satisfies it still, and every order that satisfied the half
  "a delivered order holds a card key" satisfies that half still. A refund never writes
  the card key: each order is as it was or, if it is the order refunded, as it was with
  the status refunded, so a delivered order keeps its key through its refund.
\<close>

theorem C2_invariant_amended:
  assumes ord: "orders s oid = Some ord"
  shows "(\<exists>ord'. orders (run s steps) oid = Some ord'
            \<and> (delivered_has_key ord \<longrightarrow> delivered_has_key ord')
            \<and> (order_inv ord \<and> oid \<notin> set (compensated steps) \<longrightarrow> order_inv ord'))
       \<and> (\<exists>ord'. orders (snd (processOrderFulfillment env s orderId paidAmount tn)) oid = Some ord'
            \<and> (order_inv ord \<longrightarrow> order_inv ord')
            \<and> (delivered_has_key ord \<longrightarrow> delivered_has_key ord'))
       \<and> (\<exists>ord'. orders (snd (markOrderRefunded renv s orderId)) oid = Some ord'
            \<and> cardKey ord' = cardKey ord
            \<and> (ord' = ord \<or> oid = orderId \<and> ord' = ord\<lparr>status := Refunded\<rparr>))"
  using run_order [OF ord] fulfil_order_step [OF ord] refund_order_step [OF ord] by blast

theorem C2_witness:
  "(\<exists>ord'. orders (run ex_store ex_operations) ''O'' = Some ord' \<and> delivered_has_key ord')
   \<and> map_option status (orders (run ex_store ex_operations) ''O'') = Some Refunded
   \<and> map_option cardKey (orders (run ex_store ex_operations) ''O'') = Some (Some ''K1'')
   \<and> map_option status (orders (snd (markOrderRefunded ex_refund_env ex_store_delivered ''O'')) ''O'')
       = Some Refunded
   \<and> map_option cardKey (orders (snd (markOrderRefunded ex_refund_env ex_store_delivered ''O'')) ''O'')
       = Some (Some ''K1'')"
proof -
  have h0: "orders ex_store ''O'' = Some ex_order" by (simp add: ex_store_def)
  have d0: "delivered_has_key ex_order" by (simp add: delivered_has_key_def ex_order_def)
  have h1: "orders ex_store_delivered ''O'' = Some ex_delivered" by (simp add: ex_store_delivered_def)
  have nf: "\<not> refundFails ex_refund_env ex_delivered" by (simp add: refundFails_def ex_refund_env_def)
  have after: "orders (snd (markOrderRefunded ex_refund_env ex_store_delivered ''O'')) ''O''
                 = Some (ex_delivered\<lparr>status := Refunded\<rparr>)"
    by (simp add: refund_done [OF ex_authorized h1 nf])
  from C2_invariant_amended [OF h0, of ex_operations] d0
  have a: "\<exists>ord'. orders (run ex_store ex_operations) ''O'' = Some ord' \<and> delivered_has_key ord'"
    by blast
  from C2_invariant_amended [OF h1, where renv = ex_refund_env and orderId = "''O''"] after
  have b: "cardKey (ex_delivered\<lparr>status := Refunded\<rparr>) = cardKey ex_delivered" by auto
  from a b after show ?thesis by (simp add: ex_run ex_delivered_def)
qed

text \<open>
  The claim as stated fails on the delivered sample order: the store satisfies the
  invariant before the refund and not after it.
\<close>

theorem C2_counterexample:
  "store_inv ex_store_delivered
   \<and> \<not> store_inv (snd (markOrderRefunded ex_refund_env ex_store_delivered ''O''))"
proof -
  have h1: "orders ex_store_delivered ''O'' = Some ex_delivered" by (simp add: ex_store_delivered_def)
  have nf: "\<not> refundFails ex_refund_env ex_delivered" by (simp add: refundFails_def ex_refund_env_def)
  have after: "orders (snd (markOrderRefunded ex_refund_env ex_store_delivered ''O'')) ''O''
                 = Some (ex_delivered\<lparr>status := Refunded\<rparr>)"
    by (simp add: refund_done [OF ex_authorized h1 nf])
  have "\<not> order_inv (ex_delivered\<lparr>status := Refunded\<rparr>)"
    by (simp add: order_inv_def ex_delivered_def)
  with after have "\<not> store_inv (snd (markOrderRefunded ex_refund_env ex_store_delivered ''O''))"
    unfolding store_inv_def by blast
  with ex_store_delivered_inv show ?thesis by simp
qed

subsection \<open>C4: a settled order\<close>

text \<open>
  C4, as the code has it. For an order whose status is neither pending nor cancelled a
  call changes nothing, and returns \<open>Already_processed\<close> when the paid amount passes the
  check of line 18; the check comes before the test of the status, so a paid amount
  that fails it is answered with \<open>AmountMismatch\<close> for a settled order as well.
\<close>

theorem C4_settled_order_unchanged:
  assumes "orders s orderId = Some ord" and "status ord \<noteq> Pending" and "status ord \<noteq> Cancelled"
  shows "processOrderFulfillment env s orderId paidAmount tn =
           (if amountMismatch paidAmount (amount ord) then Inl AmountMismatch
            else Inr Already_processed, s)"
  using assms by (rule fulfil_settled)

theorem C4_witness:
  "processOrderFulfillment ex_env ex_store_delivered ''O'' (Fin 10) ''T2''
     = (Inr Already_processed, ex_store_delivered)"
proof -
  have h1: "orders ex_store_delivered ''O'' = Some ex_delivered" by (simp add: ex_store_delivered_def)
  have h2: "status ex_delivered \<noteq> Pending" by (simp add: ex_delivered_def)
  have h3: "status ex_delivered \<noteq> Cancelled" by (simp add: ex_delivered_def)
  have h4: "\<not> amountMismatch (Fin 10) (amount ex_delivered)"
    by (simp add: ex_delivered_def ex_order_def pays_10_for_9_99)
  from C4_settled_order_unchanged [OF h1 h2 h3, of ex_env "Fin 10" "''T2''"] h4
  show ?thesis by simp
qed

text \<open>The claim as stated fails for the delivered sample order and a paid amount of 5.\<close>

theorem C4_counterexample:
  "map_option status (orders ex_store_delivered ''O'') = Some Delivered
   \<and> processOrderFulfillment ex_env ex_store_delivered ''O'' (Fin 5) ''T1''
       = (Inl AmountMismatch, ex_store_delivered)"
proof -
  have h1: "orders ex_store_delivered ''O'' = Some ex_delivered" by (simp add: ex_store_delivered_def)
  have h2: "amountMismatch (Fin 5) (amount ex_delivered)"
    by (simp add: ex_delivered_def ex_order_def pays_5_for_9_99)
  from fulfil_rejected [OF h1 h2] h1 show ?thesis by (simp add: ex_delivered_def)
qed

subsection \<open>C5: a wrong amount is refused\<close>

text \<open>
  C5, as the code has it. For an existing order, in any status, whose amount parses to
  the double \<open>a'\<close>, a call with the finite paid amount \<open>p\<close> fails with \<open>AmountMismatch\<close>,
  the store being the one before the call, exactly when the exact difference between
  \<open>p\<close> and \<open>a'\<close> is \<open>mismatchThreshold\<close> or more; below that the call is not refused for
  the amount. An infinite paid amount is refused, and a paid amount that is not a
  number is not.
\<close>

theorem C5_amount_mismatch_rejected:
  assumes ord: "orders s orderId = Some ord" and fin: "parseFloat (amount ord) = Fin a'"
  shows "(mismatchThreshold \<le> \<bar>p - a'\<bar> \<longrightarrow>
            processOrderFulfillment env s orderId (Fin p) tn = (Inl AmountMismatch, s))
       \<and> (\<bar>p - a'\<bar> < mismatchThreshold \<longrightarrow>
            fst (processOrderFulfillment env s orderId (Fin p) tn) \<noteq> Inl AmountMismatch)
       \<and> processOrderFulfillment env s orderId PInf tn = (Inl AmountMismatch, s)
       \<and> processOrderFulfillment env s orderId NInf tn = (Inl AmountMismatch, s)
       \<and> fst (processOrderFulfillment env s orderId NaN tn) \<noteq> Inl AmountMismatch"
proof (intro conjI impI)
  assume "mismatchThreshold \<le> \<bar>p - a'\<bar>"
  then have "amountMismatch (Fin p) (amount ord)" by (simp add: amountMismatch_iff [OF fin])
  with ord show "processOrderFulfillment env s orderId (Fin p) tn = (Inl AmountMismatch, s)"
    by (rule fulfil_rejected)
next
  assume "\<bar>p - a'\<bar> < mismatchThreshold"
  then have "\<not> amountMismatch (Fin p) (amount ord)" by (simp add: amountMismatch_iff [OF fin])
  with ord show "fst (processOrderFulfillment env s orderId (Fin p) tn) \<noteq> Inl AmountMismatch"
    by (rule fulfil_never_mismatch)
next
  from ord amountMismatch_infinite(1) [OF fin]
  show "processOrderFulfillment env s orderId PInf tn = (Inl AmountMismatch, s)"
    by (rule fulfil_rejected)
next
  from ord amountMismatch_infinite(2) [OF fin]
  show "processOrderFulfillment env s orderId NInf tn = (Inl AmountMismatch, s)"
    by (rule fulfil_rejected)
next
  from ord amountMismatch_infinite(3) [OF fin]
  show "fst (processOrderFulfillment env s orderId NaN tn) \<noteq> Inl AmountMismatch"
    by (rule fulfil_never_mismatch)
qed

theorem C5_witness:
  "processOrderFulfillment ex_env ex_store ''O'' (Fin 5) ''T1'' = (Inl AmountMismatch, ex_store)
   \<and> processOrderFulfillment ex_env ex_store ''O'' (Fin (1001 / 100)) ''T1''
       = (Inl AmountMismatch, ex_store)
   \<and> fst (processOrderFulfillment ex_env ex_store ''O'' (Fin 10) ''T1'') \<noteq> Inl AmountMismatch"
proof -
  have h1: "orders ex_store ''O'' = Some ex_order" by (simp add: ex_store_def)
  have h2: "parseFloat (amount ex_order) = Fin (5623870034678907 / 562949953421312)"
    by (simp add: ex_order_def parseFloat_def double_9_99)
  have a: "mismatchThreshold \<le> \<bar>5 - 5623870034678907 / 562949953421312\<bar>"
    "mismatchThreshold \<le> \<bar>1001 / 100 - 5623870034678907 / 562949953421312\<bar>"
    "\<bar>10 - 5623870034678907 / 562949953421312\<bar> < mismatchThreshold"
    by (simp_all add: mismatchThreshold_def)
  from C5_amount_mismatch_rejected [OF h1 h2, of 5 ex_env "''T1''"] a(1)
  have r1: "processOrderFulfillment ex_env ex_store ''O'' (Fin 5) ''T1'' = (Inl AmountMismatch, ex_store)"
    by blast
  from C5_amount_mismatch_rejected [OF h1 h2, of "1001 / 100" ex_env "''T1''"] a(2)
  have r2: "processOrderFulfillment ex_env ex_store ''O'' (Fin (1001 / 100)) ''T1''
              = (Inl AmountMismatch, ex_store)"
    by blast
  from C5_amount_mismatch_rejected [OF h1 h2, of 10 ex_env "''T1''"] a(3)
  have r3: "fst (processOrderFulfillment ex_env ex_store ''O'' (Fin 10) ''T1'') \<noteq> Inl AmountMismatch"
    by blast
  from r1 r2 r3 show ?thesis by (simp only: simp_thms)
qed

text \<open>
  The claim as stated fails for an order of 33554432.02 and the double nearest to
  33554432.03 as the paid amount: that double differs from the order's amount by more
  than 0.01, and the call is not refused, since the difference of the two doubles is
  below the double 0.01.
\<close>

theorem C5_counterexample:
  "orders ex_store_big ''O'' = Some ex_order_big \<and> amount ex_order_big = 3355443202 / 100
   \<and> 1 / 100 < \<bar>1125899907849257 / 33554432 - amount ex_order_big\<bar>
   \<and> processOrderFulfillment ex_env ex_store_big ''O'' (Fin (1125899907849257 / 33554432)) ''T1''
       = (Inr Processed,
          ex_store_big\<lparr>cards := [markUsed 1000000 ex_card],
            orders := [''O'' \<mapsto> ex_order_big\<lparr>status := Delivered, paidAt := Some 1000000,
               deliveredAt := Some 1000001, tradeNo := Some ''T1'', cardKey := Some ''K1''\<rparr>]\<rparr>)"
proof -
  have a: "orders ex_store_big ''O'' = Some ex_order_big" "amount ex_order_big = 3355443202 / 100"
    "1 / 100 < \<bar>1125899907849257 / 33554432 - amount ex_order_big\<bar>"
    by (simp_all add: ex_store_big_def ex_order_big_def)
  from a ex_big_fulfil show ?thesis by (simp only: simp_thms)
qed

subsection \<open>C6: paying 10.00 for 9.99\<close>

text \<open>
  C6, as the code has it. For a pending order of 9.99 and a first statement that does
  not fail, a call with a paid amount of 10.00 is not refused: the doubles differ by
  less than the double 0.01 (and the decimals by exactly 0.01, which does not exceed
  it), so the call returns \<open>Processed\<close>, the order ends delivered or paid, delivered
  when a card is within reach and no key in the card table is empty, and a later call
  with 9.99 returns \<open>Already_processed\<close>. A call with 9.99 on the pending order returns
  \<open>Processed\<close> in the same way.
\<close>

theorem C6_boundary_amount_accepted:
  assumes ord: "orders s orderId = Some ord"
    and amt: "amount ord = 999 / 100"
    and st: "status ord = Pending"
    and err: "reservedStmtError env = None"
  shows "(\<exists>s' ord'. processOrderFulfillment env s orderId (Fin 10) tn = (Inr Processed, s')
            \<and> orders s' orderId = Some ord'
            \<and> (status ord' = Delivered \<or> status ord' = Paid)
            \<and> ((\<forall>c\<in>set (cards s). card_key c \<noteq> []) \<and> (\<exists>c\<in>set (cards s). claimable env orderId ord c)
                  \<longrightarrow> status ord' = Delivered)
            \<and> (\<forall>env'. processOrderFulfillment env' s' orderId (round_double (999 / 100)) tn
                         = (Inr Already_processed, s')))
       \<and> (\<exists>s' ord'. processOrderFulfillment env s orderId (round_double (999 / 100)) tn = (Inr Processed, s')
            \<and> orders s' orderId = Some ord'
            \<and> ((\<forall>c\<in>set (cards s). card_key c \<noteq> []) \<and> (\<exists>c\<in>set (cards s). claimable env orderId ord c)
                  \<longrightarrow> status ord' = Delivered))"
proof
  from st have opn: "status ord = Pending \<or> status ord = Cancelled" by simp
  have ok10: "\<not> amountMismatch (Fin 10) (amount ord)"
    unfolding amt by (rule pays_10_for_9_99)
  from fulfil_open_status [OF ord opn ok10 err, of tn] obtain s' ord'
    where r: "processOrderFulfillment env s orderId (Fin 10) tn = (Inr Processed, s')"
      "orders s' orderId = Some ord'" "amount ord' = amount ord"
      "status ord' = Delivered \<or> status ord' = Paid"
      "(\<forall>c\<in>set (cards s). card_key c \<noteq> []) \<and> (\<exists>c\<in>set (cards s). claimable env orderId ord c)
            \<longrightarrow> status ord' = Delivered"
    by blast
  from r(3) amt have "amount ord' = 999 / 100" by (simp only:)
  then have "\<not> amountMismatch (round_double (999 / 100)) (amount ord')"
    by (simp only: pays_9_99_for_9_99 not_False_eq_True)
  with r(2,4) have "\<forall>env'. processOrderFulfillment env' s' orderId (round_double (999 / 100)) tn
                         = (Inr Already_processed, s')"
    by (auto simp: fulfil_settled [of s' orderId ord'])
  with r show "\<exists>s' ord'. processOrderFulfillment env s orderId (Fin 10) tn = (Inr Processed, s')
            \<and> orders s' orderId = Some ord'
            \<and> (status ord' = Delivered \<or> status ord' = Paid)
            \<and> ((\<forall>c\<in>set (cards s). card_key c \<noteq> []) \<and> (\<exists>c\<in>set (cards s). claimable env orderId ord c)
                  \<longrightarrow> status ord' = Delivered)
            \<and> (\<forall>env'. processOrderFulfillment env' s' orderId (round_double (999 / 100)) tn
                         = (Inr Already_processed, s'))"
    by blast
next
  from st have opn: "status ord = Pending \<or> status ord = Cancelled" by simp
  have ok: "\<not> amountMismatch (round_double (999 / 100)) (amount ord)"
    unfolding amt by (rule pays_9_99_for_9_99)
  from fulfil_open_status [OF ord opn ok err, of tn]
  show "\<exists>s' ord'. processOrderFulfillment env s orderId (round_double (999 / 100)) tn = (Inr Processed, s')
            \<and> orders s' orderId = Some ord'
            \<and> ((\<forall>c\<in>set (cards s). card_key c \<noteq> []) \<and> (\<exists>c\<in>set (cards s). claimable env orderId ord c)
                  \<longrightarrow> status ord' = Delivered)"
    by blast
qed

theorem C6_witness:
  "\<exists>s'. processOrderFulfillment ex_env ex_store ''O'' (Fin 10) ''T1'' = (Inr Processed, s')
     \<and> map_option status (orders s' ''O'') = Some Delivered
     \<and> processOrderFulfillment ex_env s' ''O'' (round_double (999 / 100)) ''T1'' = (Inr Already_processed, s')"
proof -
  have h1: "orders ex_store ''O'' = Some ex_order" by (simp add: ex_store_def)
  have h2: "amount ex_order = 999 / 100" by (simp add: ex_order_def)
  have h3: "status ex_order = Pending" by (simp add: ex_order_def)
  have keys: "\<forall>c\<in>set (cards ex_store). card_key c \<noteq> []" by (simp add: ex_store_def ex_card_def)
  have some: "\<exists>c\<in>set (cards ex_store). claimable ex_env ''O'' ex_order c"
    by (simp add: ex_store_def ex_claimable)
  from C6_boundary_amount_accepted [OF h1 h2 h3 ex_no_error, of "''T1''"] keys some
  show ?thesis by fastforce
qed

text \<open>The claim as stated fails on the sample store: the call with 10.00 delivers the order.\<close>

theorem C6_counterexample:
  "amount ex_order = 999 / 100 \<and> status ex_order = Pending
   \<and> orders ex_store ''O'' = Some ex_order
   \<and> processOrderFulfillment ex_env ex_store ''O'' (Fin 10) ''T1'' = (Inr Processed, ex_store_delivered)"
  using ex_fulfil by (simp add: ex_order_def ex_store_def)

subsection \<open>C7: what a refund does\<close>

text \<open>
  C7. Take an administrator's call on an existing order with \<open>pointsUsed = P > 0\<close> and a
  user id (one that JavaScript takes for true: not null and not empty) of a user on
  file, in which neither the card statement nor the refund request statement fails.
  The call succeeds, the user's balance grows by exactly \<open>P\<close> and no other balance
  changes, the order's status becomes refunded and nothing else of the order changes,
  and, when the order holds a card key, every card with the order's product and that
  key has \<open>is_used = false\<close> and \<open>used_at = null\<close> afterwards while every other card is
  as before.
\<close>

theorem C7_compensate_effect:
  assumes auth: "authorized env"
    and ord: "orders s orderId = Some ord"
    and uid: "userId ord = Some uid" "uid \<noteq> []"
    and pts: "0 < pointsUsed ord"
    and bal: "loginUsers s uid = Some b"
    and nofail: "\<not> cardReturnFails env" "\<not> refundRequestFails env"
  shows "\<exists>s'. markOrderRefunded env s orderId = (Inr (), s')
      \<and> loginUsers s' uid = Some (b + pointsUsed ord)
      \<and> (\<forall>u. u \<noteq> uid \<longrightarrow> loginUsers s' u = loginUsers s u)
      \<and> orders s' orderId = Some (ord\<lparr>status := Refunded\<rparr>)
      \<and> length (cards s') = length (cards s)
      \<and> (\<forall>k. cardKey ord = Some k \<and> k \<noteq> [] \<longrightarrow>
            (\<forall>n<length (cards s).
               cards s' ! n =
                 (if product_id (cards s ! n) = productId ord \<and> card_key (cards s ! n) = k
                  then (cards s ! n)\<lparr>is_used := Some False, used_at := None\<rparr>
                  else cards s ! n)))"
proof -
  let ?s' = "s\<lparr>loginUsers := refundPoints ord (loginUsers s),
              orders := (orders s)(orderId \<mapsto> ord\<lparr>status := Refunded\<rparr>),
              cards := returned ord (cards s),
              refundRequests := markProcessed env orderId (refundRequests s)\<rparr>"
  from nofail have nf: "\<not> refundFails env ord" by (simp add: refundFails_def)
  have run: "markOrderRefunded env s orderId = (Inr (), ?s')"
    by (rule refund_done [OF auth ord nf])
  have users: "loginUsers ?s' = (loginUsers s)(uid \<mapsto> b + pointsUsed ord)"
    using refundPoints_credit [of ord uid "loginUsers s" b] uid pts bal by simp
  have cards: "\<forall>k. cardKey ord = Some k \<and> k \<noteq> [] \<longrightarrow>
            (\<forall>n<length (cards s).
               cards ?s' ! n =
                 (if product_id (cards s ! n) = productId ord \<and> card_key (cards s ! n) = k
                  then (cards s ! n)\<lparr>is_used := Some False, used_at := None\<rparr>
                  else cards s ! n))"
    using returned_nth [of ord _ _ "cards s"] by simp
  show ?thesis
    apply (rule exI [of _ ?s'])
    using run users cards by (simp add: returned_length)
qed

theorem C7_witness:
  "\<exists>s'. markOrderRefunded ex_refund_env ex_store_delivered ''O'' = (Inr (), s')
     \<and> loginUsers s' ''u1'' = Some 15
     \<and> map_option status (orders s' ''O'') = Some Refunded
     \<and> map is_used (cards s') = [Some False]
     \<and> map used_at (cards s') = [None]"
proof -
  have h1: "orders ex_store_delivered ''O'' = Some ex_delivered" by (simp add: ex_store_delivered_def)
  have h2: "userId ex_delivered = Some ''u1''" by (simp add: ex_delivered_def ex_order_def)
  have h3: "''u1'' \<noteq> []" by simp
  have h4: "0 < pointsUsed ex_delivered" by (simp add: ex_delivered_def ex_order_def)
  have h5: "loginUsers ex_store_delivered ''u1'' = Some 10" by (simp add: ex_store_delivered_def)
  have h6: "\<not> cardReturnFails ex_refund_env" "\<not> refundRequestFails ex_refund_env"
    by (simp_all add: ex_refund_env_def)
  have k: "cardKey ex_delivered = Some ''K1'' \<and> ''K1'' \<noteq> []" by (simp add: ex_delivered_def)
  have pts: "pointsUsed ex_delivered = 5" by (simp add: ex_delivered_def ex_order_def)
  have cs: "cards ex_store_delivered = [markUsed 1000000 ex_card]" by (simp add: ex_store_delivered_def)
  have p: "productId ex_delivered = ''P''" by (simp add: ex_delivered_def ex_order_def)
  from C7_compensate_effect [OF ex_authorized h1 h2 h3 h4 h5 h6] obtain s'
    where r: "markOrderRefunded ex_refund_env ex_store_delivered ''O'' = (Inr (), s')"
      "loginUsers s' ''u1'' = Some (10 + pointsUsed ex_delivered)"
      "orders s' ''O'' = Some (ex_delivered\<lparr>status := Refunded\<rparr>)"
      "length (cards s') = length (cards ex_store_delivered)"
      "\<forall>k. cardKey ex_delivered = Some k \<and> k \<noteq> [] \<longrightarrow>
            (\<forall>n<length (cards ex_store_delivered).
               cards s' ! n =
                 (if product_id (cards ex_store_delivered ! n) = productId ex_delivered
                     \<and> card_key (cards ex_store_delivered ! n) = k
                  then (cards ex_store_delivered ! n)\<lparr>is_used := Some False, used_at := None\<rparr>
                  else cards ex_store_delivered ! n))"
    by blast
  from r(5) k have "cards s' ! 0 = (markUsed 1000000 ex_card)\<lparr>is_used := Some False, used_at := None\<rparr>"
    by (simp add: cs p ex_card_def markUsed_def)
  moreover from r(4) cs obtain c where "cards s' = [c]"
    by (cases "cards s'") auto
  ultimately have "cards s' = [(markUsed 1000000 ex_card)\<lparr>is_used := Some False, used_at := None\<rparr>]"
    by simp
  with r(1,2,3) pts show ?thesis by simp
qed

subsection \<open>C8: a refund with a failing statement\<close>

text \<open>
  C8. What the claim says of a failing statement does not hold of the code. The two
  statements sit in a \<^verbatim>\<open>try\<close> with an empty \<^verbatim>\<open>catch\<close>, for a "best effort" as the
  comments of lines 60 and 70 have it, and the caller is told of a success; but when
  the card statement fails, or the refund request statement does (its table may not
  exist, says line 75), the transaction is aborted and nothing commits: the store is
  the one before the call, the order not refunded and the points not credited. Where
  no statement fails, and no card row matches the order's product and key, the call
  does as the claim says: the order becomes refunded, the points are credited, and the
  card table is as it was.
\<close>

theorem C8_failed_statement_rolls_back:
  assumes auth: "authorized env" and ord: "orders s orderId = Some ord"
  shows "(truthy (cardKey ord) \<and> cardReturnFails env \<or> refundRequestFails env \<longrightarrow>
            markOrderRefunded env s orderId = (Inr (), s))
       \<and> (\<not> cardReturnFails env \<and> \<not> refundRequestFails env \<longrightarrow>
            (\<exists>s'. markOrderRefunded env s orderId = (Inr (), s')
               \<and> orders s' orderId = Some (ord\<lparr>status := Refunded\<rparr>)
               \<and> (\<forall>uid b. userId ord = Some uid \<and> uid \<noteq> [] \<and> 0 < pointsUsed ord
                     \<and> loginUsers s uid = Some b
                     \<longrightarrow> loginUsers s' uid = Some (b + pointsUsed ord))
               \<and> ((\<forall>c\<in>set (cards s). \<not> (product_id c = productId ord \<and> Some (card_key c) = cardKey ord))
                     \<longrightarrow> cards s' = cards s)))"
proof (intro conjI impI)
  assume "truthy (cardKey ord) \<and> cardReturnFails env \<or> refundRequestFails env"
  then have "refundFails env ord" by (simp add: refundFails_def)
  with auth ord show "markOrderRefunded env s orderId = (Inr (), s)"
    by (rule refund_rolled_back)
next
  assume "\<not> cardReturnFails env \<and> \<not> refundRequestFails env"
  then have nf: "\<not> refundFails env ord" by (simp add: refundFails_def)
  let ?s' = "s\<lparr>loginUsers := refundPoints ord (loginUsers s),
              orders := (orders s)(orderId \<mapsto> ord\<lparr>status := Refunded\<rparr>),
              cards := returned ord (cards s),
              refundRequests := markProcessed env orderId (refundRequests s)\<rparr>"
  have run: "markOrderRefunded env s orderId = (Inr (), ?s')"
    by (rule refund_done [OF auth ord nf])
  have users: "\<forall>uid b. userId ord = Some uid \<and> uid \<noteq> [] \<and> 0 < pointsUsed ord \<and> loginUsers s uid = Some b
            \<longrightarrow> loginUsers ?s' uid = Some (b + pointsUsed ord)"
    by (auto simp: refundPoints_credit)
  show "\<exists>s'. markOrderRefunded env s orderId = (Inr (), s')
               \<and> orders s' orderId = Some (ord\<lparr>status := Refunded\<rparr>)
               \<and> (\<forall>uid b. userId ord = Some uid \<and> uid \<noteq> [] \<and> 0 < pointsUsed ord
                     \<and> loginUsers s uid = Some b
                     \<longrightarrow> loginUsers s' uid = Some (b + pointsUsed ord))
               \<and> ((\<forall>c\<in>set (cards s). \<not> (product_id c = productId ord \<and> Some (card_key c) = cardKey ord))
                     \<longrightarrow> cards s' = cards s)"
    apply (rule exI [of _ ?s'])
    using run users by (simp add: returned_no_row)
qed

theorem C8_witness:
  "statusOf ex_store_refund ''O'' = Some Delivered \<and> loginUsers ex_store_refund ''u1'' = Some 10
   \<and> markOrderRefunded ex_refund_env_no_table ex_store_refund ''O'' = (Inr (), ex_store_refund)
   \<and> markOrderRefunded ex_refund_env_card_fails ex_store_refund ''O'' = (Inr (), ex_store_refund)
   \<and> (\<exists>s'. markOrderRefunded ex_refund_env ex_store_no_card ''O'' = (Inr (), s')
         \<and> statusOf s' ''O'' = Some Refunded \<and> loginUsers s' ''u1'' = Some 15 \<and> cards s' = [])"
proof -
  have h1: "orders ex_store_refund ''O'' = Some ex_delivered"
    by (simp add: ex_store_refund_def ex_store_delivered_def)
  have h2: "orders ex_store_no_card ''O'' = Some ex_delivered"
    by (simp add: ex_store_no_card_def ex_store_refund_def ex_store_delivered_def)
  have before: "statusOf ex_store_refund ''O'' = Some Delivered" "loginUsers ex_store_refund ''u1'' = Some 10"
    by (simp_all add: statusOf_def ex_store_refund_def ex_store_delivered_def ex_delivered_def)
  have f1: "truthy (cardKey ex_delivered) \<and> cardReturnFails ex_refund_env_no_table
              \<or> refundRequestFails ex_refund_env_no_table"
    by (simp add: ex_refund_env_no_table_def)
  have f2: "truthy (cardKey ex_delivered) \<and> cardReturnFails ex_refund_env_card_fails
              \<or> refundRequestFails ex_refund_env_card_fails"
    by (simp add: ex_refund_env_card_fails_def ex_delivered_def truthy_def)
  have f3: "\<not> cardReturnFails ex_refund_env \<and> \<not> refundRequestFails ex_refund_env"
    by (simp add: ex_refund_env_def)
  have u: "userId ex_delivered = Some ''u1'' \<and> ''u1'' \<noteq> [] \<and> 0 < pointsUsed ex_delivered
           \<and> loginUsers ex_store_no_card ''u1'' = Some 10"
    by (simp add: ex_delivered_def ex_order_def ex_store_no_card_def ex_store_refund_def
        ex_store_delivered_def)
  have pts: "pointsUsed ex_delivered = 5" by (simp add: ex_delivered_def ex_order_def)
  have nocard: "cards ex_store_no_card = []" by (simp add: ex_store_no_card_def)
  from C8_failed_statement_rolls_back [OF ex_authorized_no_table h1] f1
  have r1: "markOrderRefunded ex_refund_env_no_table ex_store_refund ''O'' = (Inr (), ex_store_refund)"
    by blast
  from C8_failed_statement_rolls_back [OF ex_authorized_card_fails h1] f2
  have r2: "markOrderRefunded ex_refund_env_card_fails ex_store_refund ''O'' = (Inr (), ex_store_refund)"
    by blast
  from C8_failed_statement_rolls_back [OF ex_authorized h2] f3 u pts nocard
  have r3: "\<exists>s'. markOrderRefunded ex_refund_env ex_store_no_card ''O'' = (Inr (), s')
         \<and> statusOf s' ''O'' = Some Refunded \<and> loginUsers s' ''u1'' = Some 15 \<and> cards s' = []"
    by (fastforce simp: statusOf_def)
  from before r1 r2 r3 show ?thesis by (simp only: simp_thms)
qed

subsection \<open>C9: reservations\<close>

text \<open>
  C9. On a first statement that does not fail and card ids that are unique, take an
  unused card reserved for order \<open>X\<close> at time \<open>t\<close>. While the reservation is not older
  than a minute, no call for another order touches the card. Once it is older than a
  minute the card satisfies the condition of the second statement, and a call for any
  open order \<open>Y\<close> of the card's product with an accepted amount takes it, when no card
  is reserved for \<open>Y\<close> itself, the card is the first that qualifies and its key is not
  empty: the card is then used, with \<open>used_at\<close> the time of the call and no reservation
  left on it, no other card changes, and \<open>Y\<close> is delivered with the card's key. A call
  for \<open>X\<close> itself, open and with an accepted amount, takes the card at any age of the
  reservation, leaving it used in the same way, and \<open>X\<close> is delivered with the card's
  key when the card is the first reserved for \<open>X\<close> and its key is not empty.
\<close>

theorem C9_reservation_respected:
  assumes ok: "reservedStmtError env = None"
    and d: "distinct (map card_id (cards s))"
    and n: "n < length (cards s)"
    and c: "cards s ! n = c" "unused c" "reserved_order_id c = Some X" "reserved_at c = Some t"
  shows "(dbNow env - 60000 \<le> t \<longrightarrow>
           (\<forall>Y paidAmount tn. Y \<noteq> X \<longrightarrow>
              cards (snd (processOrderFulfillment env s Y paidAmount tn)) ! n = c))
       \<and> (t < dbNow env - 60000 \<longrightarrow>
           eligible (dbNow env) (product_id c) c \<and>
           (\<forall>Y ordY paidAmount tn.
              orders s Y = Some ordY \<and> (status ordY = Pending \<or> status ordY = Cancelled)
              \<and> \<not> amountMismatch paidAmount (amount ordY)
              \<and> productId ordY = product_id c
              \<and> (\<forall>c'\<in>set (cards s). \<not> reservedFor Y c')
              \<and> (\<forall>m<n. \<not> eligible (dbNow env) (product_id c) (cards s ! m))
              \<and> card_key c \<noteq> []
              \<longrightarrow> processOrderFulfillment env s Y paidAmount tn =
                    (Inr Processed,
                     s\<lparr>cards := (cards s)[n := c\<lparr>is_used := Some True, used_at := Some (dbNow env),
                                                 reserved_order_id := None, reserved_at := None\<rparr>],
                       orders := (orders s)(Y \<mapsto>
                         ordY\<lparr>status := Delivered, paidAt := Some (jsNow env),
                              deliveredAt := Some (jsNow2 env), tradeNo := Some tn,
                              cardKey := Some (card_key c)\<rparr>)\<rparr>)))
       \<and> (\<forall>ordX paidAmount tn.
              orders s X = Some ordX \<and> (status ordX = Pending \<or> status ordX = Cancelled)
              \<and> \<not> amountMismatch paidAmount (amount ordX)
              \<longrightarrow> (\<exists>s' ordX'. processOrderFulfillment env s X paidAmount tn = (Inr Processed, s')
                     \<and> cards s' ! n = c\<lparr>is_used := Some True, used_at := Some (dbNow env),
                                         reserved_order_id := None, reserved_at := None\<rparr>
                     \<and> orders s' X = Some ordX'
                     \<and> ((\<forall>m<n. \<not> reservedFor X (cards s ! m)) \<and> card_key c \<noteq> []
                          \<longrightarrow> status ordX' = Delivered \<and> cardKey ordX' = Some (card_key c))))"
proof -
  have fresh: "cards (snd (processOrderFulfillment env s Y paidAmount tn)) ! n = c"
    if fresh: "dbNow env - 60000 \<le> t" and other: "Y \<noteq> X" for Y paidAmount tn
  proof -
    let ?s' = "snd (processOrderFulfillment env s Y paidAmount tn)"
    from fulfil_cards [of env s Y paidAmount tn]
    show "cards ?s' ! n = c"
    proof
      assume "cards ?s' = cards s"
      with c(1) show ?thesis by simp
    next
      assume "\<exists>ord ck. orders s Y = Some ord \<and> claimCard env Y ord (cards s) = Inr (ck, cards ?s')"
      then obtain ord ck where cc: "claimCard env Y ord (cards s) = Inr (ck, cards ?s')" by blast
      from c(1,3) other have o: "reserved_order_id (cards s ! n) \<noteq> Some Y" by simp
      from c(1,4) have r: "reserved_at (cards s ! n) = Some t" by simp
      from claimCard_keeps_fresh [OF cc ok d n o r fresh] c(1) show ?thesis by simp
    qed
  qed
  have stale_eligible: "eligible (dbNow env) (product_id c) c" if "t < dbNow env - 60000"
    using that c by (simp add: eligible_def)
  have stale: "processOrderFulfillment env s Y paidAmount tn =
                    (Inr Processed,
                     s\<lparr>cards := (cards s)[n := c\<lparr>is_used := Some True, used_at := Some (dbNow env),
                                                 reserved_order_id := None, reserved_at := None\<rparr>],
                       orders := (orders s)(Y \<mapsto>
                         ordY\<lparr>status := Delivered, paidAt := Some (jsNow env),
                              deliveredAt := Some (jsNow2 env), tradeNo := Some tn,
                              cardKey := Some (card_key c)\<rparr>)\<rparr>)"
    if stale: "t < dbNow env - 60000"
      and h: "orders s Y = Some ordY" "status ordY = Pending \<or> status ordY = Cancelled"
        "\<not> amountMismatch paidAmount (amount ordY)"
        "productId ordY = product_id c"
        "\<forall>c'\<in>set (cards s). \<not> reservedFor Y c'"
        "\<forall>m<n. \<not> eligible (dbNow env) (product_id c) (cards s ! m)"
        "card_key c \<noteq> []"
    for Y ordY paidAmount tn
  proof -
    from stale_eligible [OF stale] c(1) h(4)
    have el: "eligible (dbNow env) (productId ordY) (cards s ! n)" by simp
    from h(4,6) have first: "\<forall>m<n. \<not> eligible (dbNow env) (productId ordY) (cards s ! m)" by simp
    have cc: "claimCard env Y ordY (cards s) =
           Inr (Some (card_key (cards s ! n)), (cards s)[n := markUsed (dbNow env) (cards s ! n)])"
      by (rule claimCard_takes_first_eligible [OF ok d h(5) n el first])
    from h(7) c(1) have t: "truthy (Some (card_key (cards s ! n)))" by (simp add: truthy_def)
    from fulfil_delivered [OF h(1) h(3) h(2) cc t, of tn] c(1)
    show ?thesis by (simp add: markUsed_def)
  qed
  have own: "\<exists>s' ordX'. processOrderFulfillment env s X paidAmount tn = (Inr Processed, s')
                     \<and> cards s' ! n = c\<lparr>is_used := Some True, used_at := Some (dbNow env),
                                         reserved_order_id := None, reserved_at := None\<rparr>
                     \<and> orders s' X = Some ordX'
                     \<and> ((\<forall>m<n. \<not> reservedFor X (cards s ! m)) \<and> card_key c \<noteq> []
                          \<longrightarrow> status ordX' = Delivered \<and> cardKey ordX' = Some (card_key c))"
    if h: "orders s X = Some ordX" "status ordX = Pending \<or> status ordX = Cancelled"
        "\<not> amountMismatch paidAmount (amount ordX)"
    for ordX paidAmount tn
  proof -
    from fulfil_open [OF h ok, of tn] obtain ck cs'
      where cc: "claimCard env X ordX (cards s) = Inr (ck, cs')"
        and run: "processOrderFulfillment env s X paidAmount tn =
           (Inr Processed,
            s\<lparr>cards := cs',
              orders := (orders s)(X \<mapsto>
                (if truthy ck
                 then ordX\<lparr>status := Delivered, paidAt := Some (jsNow env),
                          deliveredAt := Some (jsNow2 env), tradeNo := Some tn, cardKey := ck\<rparr>
                 else ordX\<lparr>status := Paid, paidAt := Some (jsNow env), tradeNo := Some tn\<rparr>))\<rparr>)"
      by blast
    from c have r: "reservedFor X (cards s ! n)" by (simp add: reservedFor_def)
    from claimCard_reserved_all [OF cc ok n r] c(1)
    have card: "cs' ! n = c\<lparr>is_used := Some True, used_at := Some (dbNow env),
                                         reserved_order_id := None, reserved_at := None\<rparr>"
      by (simp add: markUsed_def)
    have key: "truthy ck \<and> ck = Some (card_key c)"
      if first: "\<forall>m<n. \<not> reservedFor X (cards s ! m)" and k: "card_key c \<noteq> []"
    proof -
      from filter_first [OF n r first] c(1) obtain rest
        where "filter (reservedFor X) (cards s) = c # rest" by auto
      then have "map card_key (filter (reservedFor X) (cards s)) = card_key c # map card_key rest"
        by simp
      from claimCard_reserved_key [OF cc ok this k] k show ?thesis by (simp add: truthy_def)
    qed
    from run card key show ?thesis by (cases "truthy ck") auto
  qed
  from fresh stale_eligible stale own show ?thesis by blast
qed

theorem C9_witness:
  "cards (snd (processOrderFulfillment ex_env ex_store_reserved ''Y'' (Fin 10) ''T1'')) ! 0 = ex_fresh
   \<and> processOrderFulfillment ex_env ex_store_reserved ''Y'' (Fin 10) ''T1'' =
       (Inr Processed,
        ex_store_reserved\<lparr>cards :=
            [ex_fresh,
             \<lparr>card_id = 2, product_id = ''P'', card_key = ''K2'', is_used = Some True,
              used_at = Some 1000000, reserved_order_id = None, reserved_at = None\<rparr>],
          orders := (orders ex_store_reserved)(''Y'' \<mapsto>
            ex_order\<lparr>status := Delivered, paidAt := Some 1000000, deliveredAt := Some 1000001,
                     tradeNo := Some ''T1'', cardKey := Some ''K2''\<rparr>)\<rparr>)
   \<and> (\<exists>s'. processOrderFulfillment ex_env ex_store_reserved ''X'' (Fin 10) ''T1'' = (Inr Processed, s')
         \<and> cards s' ! 0 =
             \<lparr>card_id = 1, product_id = ''P'', card_key = ''K1'', is_used = Some True,
              used_at = Some 1000000, reserved_order_id = None, reserved_at = None\<rparr>
         \<and> statusOf s' ''X'' = Some Delivered \<and> cardKeyOf s' ''X'' = Some (Some ''K1''))"
proof -
  have ok: "reservedStmtError ex_env = None" by (simp add: ex_env_def)
  have now: "dbNow ex_env = 1000000" "jsNow ex_env = 1000000" "jsNow2 ex_env = 1000001"
    by (simp_all add: ex_env_def)
  have d: "distinct (map card_id (cards ex_store_reserved))"
    by (simp add: ex_store_reserved_def ex_fresh_def ex_stale_def)
  have n0: "0 < length (cards ex_store_reserved)" and n1: "1 < length (cards ex_store_reserved)"
    by (simp_all add: ex_store_reserved_def)
  have c0: "cards ex_store_reserved ! 0 = ex_fresh" "unused ex_fresh"
    "reserved_order_id ex_fresh = Some ''X''" "reserved_at ex_fresh = Some 990000"
    by (simp_all add: ex_store_reserved_def ex_fresh_def unused_def)
  have c1: "cards ex_store_reserved ! 1 = ex_stale" "unused ex_stale"
    "reserved_order_id ex_stale = Some ''X''" "reserved_at ex_stale = Some 900000"
    by (simp_all add: ex_store_reserved_def ex_stale_def unused_def)
  have fresh: "dbNow ex_env - 60000 \<le> 990000" and stale: "900000 < dbNow ex_env - 60000"
    by (simp_all add: now)
  have y: "orders ex_store_reserved ''Y'' = Some ex_order"
    "status ex_order = Pending \<or> status ex_order = Cancelled"
    "\<not> amountMismatch (Fin 10) (amount ex_order)"
    "productId ex_order = product_id ex_stale"
    "card_key ex_stale \<noteq> []"
    by (simp_all add: ex_store_reserved_def ex_order_def pays_10_for_9_99 ex_stale_def)
  have x: "orders ex_store_reserved ''X'' = Some ex_order"
    by (simp add: ex_store_reserved_def)
  have nores: "\<forall>c'\<in>set (cards ex_store_reserved). \<not> reservedFor ''Y'' c'"
    by (simp add: ex_store_reserved_def reservedFor_def ex_fresh_def ex_stale_def)
  have first: "\<forall>m<1. \<not> eligible (dbNow ex_env) (product_id ex_stale) (cards ex_store_reserved ! m)"
    by (simp add: ex_store_reserved_def eligible_def ex_fresh_def now)
  have first0: "\<forall>m<0. \<not> reservedFor ''X'' (cards ex_store_reserved ! m)" by simp
  have key0: "card_key ex_fresh \<noteq> []" by (simp add: ex_fresh_def)
  from C9_reservation_respected [OF ok d n0 c0] fresh
  have a: "cards (snd (processOrderFulfillment ex_env ex_store_reserved ''Y'' (Fin 10) ''T1'')) ! 0 = ex_fresh"
    by simp
  from C9_reservation_respected [OF ok d n1 c1] stale y nores first
  have b: "processOrderFulfillment ex_env ex_store_reserved ''Y'' (Fin 10) ''T1'' =
        (Inr Processed,
         ex_store_reserved\<lparr>cards := (cards ex_store_reserved)[1 := ex_stale\<lparr>is_used := Some True,
               used_at := Some (dbNow ex_env), reserved_order_id := None, reserved_at := None\<rparr>],
           orders := (orders ex_store_reserved)(''Y'' \<mapsto>
             ex_order\<lparr>status := Delivered, paidAt := Some (jsNow ex_env),
                  deliveredAt := Some (jsNow2 ex_env), tradeNo := Some ''T1'',
                  cardKey := Some (card_key ex_stale)\<rparr>)\<rparr>)"
    by blast
  from C9_reservation_respected [OF ok d n0 c0] x y(2,3) first0 key0
  obtain s' ordX' where own:
    "processOrderFulfillment ex_env ex_store_reserved ''X'' (Fin 10) ''T1'' = (Inr Processed, s')"
    "cards s' ! 0 = ex_fresh\<lparr>is_used := Some True, used_at := Some (dbNow ex_env),
                            reserved_order_id := None, reserved_at := None\<rparr>"
    "orders s' ''X'' = Some ordX'"
    "status ordX' = Delivered \<and> cardKey ordX' = Some (card_key ex_fresh)"
    by blast
  from own have c: "\<exists>s'. processOrderFulfillment ex_env ex_store_reserved ''X'' (Fin 10) ''T1'' = (Inr Processed, s')
         \<and> cards s' ! 0 =
             \<lparr>card_id = 1, product_id = ''P'', card_key = ''K1'', is_used = Some True,
              used_at = Some 1000000, reserved_order_id = None, reserved_at = None\<rparr>
         \<and> statusOf s' ''X'' = Some Delivered \<and> cardKeyOf s' ''X'' = Some (Some ''K1'')"
    by (simp add: now ex_fresh_def statusOf_def cardKeyOf_def)
  from b have b': "processOrderFulfillment ex_env ex_store_reserved ''Y'' (Fin 10) ''T1'' =
       (Inr Processed,
        ex_store_reserved\<lparr>cards :=
            [ex_fresh,
             \<lparr>card_id = 2, product_id = ''P'', card_key = ''K2'', is_used = Some True,
              used_at = Some 1000000, reserved_order_id = None, reserved_at = None\<rparr>],
          orders := (orders ex_store_reserved)(''Y'' \<mapsto>
            ex_order\<lparr>status := Delivered, paidAt := Some 1000000, deliveredAt := Some 1000001,
                     tradeNo := Some ''T1'', cardKey := Some ''K2''\<rparr>)\<rparr>)"
    by (simp add: now ex_stale_def ex_store_reserved_def)
  from a b' c show ?thesis by (simp only: simp_thms)
qed

subsection \<open>C10: the first statement takes every card reserved for the order\<close>

text \<open>
  C10. When the first statement runs, one call for an open order marks as used every
  unused card whose \<open>reserved_order_id\<close> is the order's id, whatever the card's product
  and whatever its \<open>reserved_at\<close>, and the order is delivered with the key of the first
  of these rows when that key is not empty.
\<close>

theorem C10_reserved_claim_takes_all:
  assumes ord: "orders s orderId = Some ord"
    and opn: "status ord = Pending \<or> status ord = Cancelled"
    and amt: "\<not> amountMismatch paidAmount (amount ord)"
    and ok: "reservedStmtError env = None"
  shows "\<exists>s' ord'. processOrderFulfillment env s orderId paidAmount tn = (Inr Processed, s')
      \<and> orders s' orderId = Some ord'
      \<and> length (cards s') = length (cards s)
      \<and> (\<forall>n<length (cards s).
            reserved_order_id (cards s ! n) = Some orderId \<and> unused (cards s ! n) \<longrightarrow>
            cards s' ! n = (cards s ! n)\<lparr>is_used := Some True, used_at := Some (dbNow env),
                                         reserved_order_id := None, reserved_at := None\<rparr>)
      \<and> (\<forall>k ks. map card_key (filter (reservedFor orderId) (cards s)) = k # ks \<and> k \<noteq> [] \<longrightarrow>
            status ord' = Delivered \<and> cardKey ord' = Some k)"
proof -
  from fulfil_open [OF ord opn amt ok, of tn] obtain ck cs'
    where cc: "claimCard env orderId ord (cards s) = Inr (ck, cs')"
      and run: "processOrderFulfillment env s orderId paidAmount tn =
           (Inr Processed,
            s\<lparr>cards := cs',
              orders := (orders s)(orderId \<mapsto>
                (if truthy ck
                 then ord\<lparr>status := Delivered, paidAt := Some (jsNow env),
                          deliveredAt := Some (jsNow2 env), tradeNo := Some tn, cardKey := ck\<rparr>
                 else ord\<lparr>status := Paid, paidAt := Some (jsNow env), tradeNo := Some tn\<rparr>))\<rparr>)"
    by blast
  have all: "\<forall>n<length (cards s).
            reserved_order_id (cards s ! n) = Some orderId \<and> unused (cards s ! n) \<longrightarrow>
            cs' ! n = (cards s ! n)\<lparr>is_used := Some True, used_at := Some (dbNow env),
                                         reserved_order_id := None, reserved_at := None\<rparr>"
    using claimCard_reserved_all [OF cc ok] by (simp add: reservedFor_def markUsed_def)
  have key: "\<forall>k ks. map card_key (filter (reservedFor orderId) (cards s)) = k # ks \<and> k \<noteq> [] \<longrightarrow>
            truthy ck \<and> ck = Some k"
    using claimCard_reserved_key [OF cc ok] by (auto simp: truthy_def)
  from run all key claimCard_length [OF cc] show ?thesis
    by (cases "truthy ck") auto
qed

theorem C10_witness:
  "\<exists>s'. processOrderFulfillment ex_env ex_store_two_reserved ''O'' (Fin 10) ''T1'' = (Inr Processed, s')
     \<and> cards s' = [markUsed 1000000 ex_other_product, markUsed 1000000 ex_old_reservation]
     \<and> map_option cardKey (orders s' ''O'') = Some (Some ''KQ'')
     \<and> product_id ex_other_product \<noteq> productId ex_order"
proof -
  have h1: "orders ex_store_two_reserved ''O'' = Some ex_order" by (simp add: ex_store_two_reserved_def)
  have h2: "status ex_order = Pending \<or> status ex_order = Cancelled" by (simp add: ex_order_def)
  have h3: "\<not> amountMismatch (Fin 10) (amount ex_order)" by (simp add: ex_order_def pays_10_for_9_99)
  have ok: "reservedStmtError ex_env = None" by (simp add: ex_env_def)
  have now: "dbNow ex_env = 1000000" by (simp add: ex_env_def)
  have cs: "cards ex_store_two_reserved = [ex_other_product, ex_old_reservation]"
    by (simp add: ex_store_two_reserved_def)
  have r: "reserved_order_id ex_other_product = Some ''O'' \<and> unused ex_other_product"
    "reserved_order_id ex_old_reservation = Some ''O'' \<and> unused ex_old_reservation"
    by (simp_all add: ex_other_product_def ex_old_reservation_def unused_def)
  have rows: "map card_key (filter (reservedFor ''O'') (cards ex_store_two_reserved)) = [''KQ'', ''KP'']"
    using r by (simp add: cs reservedFor_def) (simp add: ex_other_product_def ex_old_reservation_def)
  have prod: "product_id ex_other_product \<noteq> productId ex_order"
    by (simp add: ex_other_product_def ex_order_def)
  from C10_reserved_claim_takes_all [OF h1 h2 h3 ok, of "''T1''"] obtain s' ord'
    where res: "processOrderFulfillment ex_env ex_store_two_reserved ''O'' (Fin 10) ''T1'' = (Inr Processed, s')"
      "orders s' ''O'' = Some ord'"
      "length (cards s') = length (cards ex_store_two_reserved)"
      "\<forall>n<length (cards ex_store_two_reserved).
            reserved_order_id (cards ex_store_two_reserved ! n) = Some ''O''
              \<and> unused (cards ex_store_two_reserved ! n) \<longrightarrow>
            cards s' ! n = (cards ex_store_two_reserved ! n)\<lparr>is_used := Some True,
                 used_at := Some (dbNow ex_env), reserved_order_id := None, reserved_at := None\<rparr>"
      "\<forall>k ks. map card_key (filter (reservedFor ''O'') (cards ex_store_two_reserved)) = k # ks \<and> k \<noteq> [] \<longrightarrow>
            status ord' = Delivered \<and> cardKey ord' = Some k"
    by blast
  from res(4) r have "cards s' ! 0 = markUsed 1000000 ex_other_product"
    "cards s' ! 1 = markUsed 1000000 ex_old_reservation"
    by (simp_all add: cs now markUsed_def)
  moreover from res(3) have "length (cards s') = 2" by (simp add: cs)
  ultimately have "cards s' = [markUsed 1000000 ex_other_product, markUsed 1000000 ex_old_reservation]"
    by (intro nth_equalityI) (auto simp: less_Suc_eq numeral_2_eq_2)
  moreover from res(5) rows have "cardKey ord' = Some ''KQ''" by simp
  ultimately show ?thesis using res(1,2) prod by simp
qed

section \<open>Calls one after another\<close>

text \<open>
  Calls that run at the same time, and the row locks that keep them apart, are outside
  this theory: it runs one call at a time. What it shows is the outcome of calls that
  run in turn. On a card table with unique ids, no reservation and no empty key, with
  \<open>M\<close> unused cards of the product, the first \<open>M\<close> calls for distinct open orders of
  that product deliver the unused cards in row order and every later call leaves its
  order paid, with the card key it had; the number of delivered orders is the smaller
  of \<open>M\<close> and the number of calls, and where the keys of the table are distinct no two
  orders hold the same key.
\<close>

theorem fulfilAll_in_turn:
  assumes t: "tidy (cards s)"
    and d: "distinct (map callOrder calls)"
    and r: "\<forall>call\<in>set calls. ready s p call"
  shows "(\<forall>i<length calls.
            statusOf (fulfilAll s calls) (callOrder (calls ! i))
              = Some (if i < length (filter (eligibleLegacy p) (cards s)) then Delivered else Paid)
            \<and> cardKeyOf (fulfilAll s calls) (callOrder (calls ! i))
              = (if i < length (filter (eligibleLegacy p) (cards s))
                 then Some (Some (card_key (filter (eligibleLegacy p) (cards s) ! i)))
                 else cardKeyOf s (callOrder (calls ! i))))
       \<and> length (filter (\<lambda>call. statusOf (fulfilAll s calls) (callOrder call) = Some Delivered) calls)
           = min (length (filter (eligibleLegacy p) (cards s))) (length calls)
       \<and> (distinct (map card_key (cards s)) \<longrightarrow>
            (\<forall>i j. i < j \<and> j < length calls \<and> j < length (filter (eligibleLegacy p) (cards s)) \<longrightarrow>
               cardKeyOf (fulfilAll s calls) (callOrder (calls ! i))
                 \<noteq> cardKeyOf (fulfilAll s calls) (callOrder (calls ! j))))"
proof -
  let ?A = "filter (eligibleLegacy p) (cards s)"
  let ?s' = "fulfilAll s calls"
  have each: "statusOf ?s' (callOrder (calls ! i))
              = Some (if i < length ?A then Delivered else Paid)
            \<and> cardKeyOf ?s' (callOrder (calls ! i))
              = (if i < length ?A then Some (Some (card_key (?A ! i)))
                 else cardKeyOf s (callOrder (calls ! i)))"
    if i: "i < length calls" for i
  proof -
    from fulfilAll_tidy [OF t d r i] obtain ord
      where "orders s (callOrder (calls ! i)) = Some ord"
        "orders ?s' (callOrder (calls ! i)) = Some (settled ?A i (calls ! i) ord)"
      by blast
    then show ?thesis by (simp add: settled_def statusOf_def cardKeyOf_def split: prod.splits)
  qed
  have count: "length (filter (\<lambda>call. statusOf ?s' (callOrder call) = Some Delivered) calls)
           = min (length ?A) (length calls)"
  proof -
    have "{i. i < length calls \<and> statusOf ?s' (callOrder (calls ! i)) = Some Delivered}
            = {..<min (length ?A) (length calls)}"
      using each by (auto split: if_splits)
    then show ?thesis by (simp add: length_filter_conv_card)
  qed
  have keys: "cardKeyOf ?s' (callOrder (calls ! i)) \<noteq> cardKeyOf ?s' (callOrder (calls ! j))"
    if dk: "distinct (map card_key (cards s))" and ij: "i < j" "j < length calls" "j < length ?A"
    for i j
  proof -
    from dk have "distinct (map card_key ?A)" by (rule distinct_map_filter)
    moreover from ij have "i < length (map card_key ?A)" "j < length (map card_key ?A)" "i \<noteq> j"
      by simp_all
    ultimately have "map card_key ?A ! i \<noteq> map card_key ?A ! j"
      using nth_eq_iff_index_eq by blast
    with ij have "card_key (?A ! i) \<noteq> card_key (?A ! j)" by simp
    with each [of i] each [of j] ij show ?thesis by simp
  qed
  from each count keys show ?thesis by blast
qed

theorem fulfilAll_in_turn_sample:
  "statusOf (fulfilAll ex_store_three ex_calls) ''A'' = Some Delivered
   \<and> cardKeyOf (fulfilAll ex_store_three ex_calls) ''A'' = Some (Some ''K1'')
   \<and> statusOf (fulfilAll ex_store_three ex_calls) ''B'' = Some Delivered
   \<and> cardKeyOf (fulfilAll ex_store_three ex_calls) ''B'' = Some (Some ''K2'')
   \<and> statusOf (fulfilAll ex_store_three ex_calls) ''C'' = Some Paid
   \<and> cardKeyOf (fulfilAll ex_store_three ex_calls) ''C'' = Some None"
proof -
  have d: "distinct (map callOrder ex_calls)" by (simp add: ex_calls_def callOrder_def)
  have A: "filter (eligibleLegacy ''P'') (cards ex_store_three) = [ex_card, ex_card2]"
    by (simp add: ex_store_three_def eligibleLegacy_def ex_card_def ex_card2_def unused_def)
  have n: "length ex_calls = 3" by (simp add: ex_calls_def)
  have c: "callOrder (ex_calls ! 0) = ''A''" "callOrder (ex_calls ! Suc 0) = ''B''"
    "callOrder (ex_calls ! 2) = ''C''"
    by (simp_all add: ex_calls_def callOrder_def)
  have k: "card_key ex_card = ''K1''" "card_key ex_card2 = ''K2''"
    by (simp_all add: ex_card_def ex_card2_def)
  have o: "cardKeyOf ex_store_three ''C'' = Some None"
    by (simp add: ex_store_three_def ex_order_def cardKeyOf_def)
  from fulfilAll_in_turn [OF ex_three_tidy d ex_three_ready]
  have all: "\<forall>i<length ex_calls. statusOf (fulfilAll ex_store_three ex_calls) (callOrder (ex_calls ! i))
              = Some (if i < length (filter (eligibleLegacy ''P'') (cards ex_store_three))
                      then Delivered else Paid)
            \<and> cardKeyOf (fulfilAll ex_store_three ex_calls) (callOrder (ex_calls ! i))
              = (if i < length (filter (eligibleLegacy ''P'') (cards ex_store_three))
                 then Some (Some (card_key (filter (eligibleLegacy ''P'') (cards ex_store_three) ! i)))
                 else cardKeyOf ex_store_three (callOrder (ex_calls ! i)))"
    by blast
  from all [rule_format, of 0] all [rule_format, of 1] all [rule_format, of 2]
  show ?thesis by (simp add: A n c k o)
qed

end
